theory Spec2Isabelle
  imports Complex_Main
begin

section \<open>Text: Python strings as lists of code points\<close>

text \<open>
  A Python \<^verbatim>\<open>str\<close> is a sequence of Unicode code points, so a text is a list of
  natural numbers (one per code point); \<open>ustr\<close> embeds an ASCII literal.
\<close>

type_synonym ustring = "nat list"

definition ustr :: "string \<Rightarrow> ustring" where
  "ustr s = map of_char s"

text \<open>
  \<^verbatim>\<open>str.lower()\<close>, code point by code point. The model covers the Latin letters A-Z,
  the Cyrillic capitals U+0400..U+042F, and the two other code points whose lowercase
  form contains a letter of the token alphabet: U+0130 (lowercased to \<open>i\<close> followed
  by U+0307) and U+212A (the Kelvin sign, lowercased to \<open>k\<close>). Every other code
  point is left as it is. For \<open>tokenize\<close>, \<open>contains_cyrillic\<close> and \<open>normalize_text\<close>
  this loses nothing: the lowercase form of any other code point lies outside the token
  alphabet, as the code point itself does, so it separates tokens either way.
  \<open>normalized_topic\<close> does not use this table.
\<close>

definition lower_cp :: "nat \<Rightarrow> nat list" where
  "lower_cp c =
     (if 65 \<le> c \<and> c \<le> 90 then [c + 32]
      else if c = 304 then [105, 775]
      else if 1024 \<le> c \<and> c \<le> 1039 then [c + 80]
      else if 1040 \<le> c \<and> c \<le> 1071 then [c + 32]
      else if c = 8490 then [107]
      else [c])"

definition py_lower :: "ustring \<Rightarrow> ustring" where
  "py_lower s = concat (map lower_cp s)"

text \<open>\<^verbatim>\<open>str.isspace\<close> on one code point (the code points \<^verbatim>\<open>str.split()\<close> and
  \<^verbatim>\<open>str.strip()\<close> treat as white space).\<close>

definition is_space :: "nat \<Rightarrow> bool" where
  "is_space c \<longleftrightarrow>
     (9 \<le> c \<and> c \<le> 13) \<or> (28 \<le> c \<and> c \<le> 32) \<or> c = 133 \<or> c = 160 \<or> c = 5760 \<or>
     (8192 \<le> c \<and> c \<le> 8202) \<or> c = 8232 \<or> c = 8233 \<or> c = 8239 \<or> c = 8287 \<or> c = 12288"

text \<open>
  \<^verbatim>\<open>re.findall(r"[class]+", s)\<close>: the maximal runs of code points of the class, left
  to right. \<open>cur\<close> is the run being read.
\<close>

fun findall_runs :: "(nat \<Rightarrow> bool) \<Rightarrow> ustring \<Rightarrow> ustring \<Rightarrow> ustring list" where
  "findall_runs P cur [] = (if cur = [] then [] else [cur])"
| "findall_runs P cur (c # cs) =
     (if P c then findall_runs P (cur @ [c]) cs
      else (if cur = [] then [] else [cur]) @ findall_runs P [] cs)"

text \<open>\<^verbatim>\<open>sep.join(parts)\<close>.\<close>

fun py_join :: "ustring \<Rightarrow> ustring list \<Rightarrow> ustring" where
  "py_join sep [] = []"
| "py_join sep [t] = t"
| "py_join sep (t # u # ts) = t @ sep @ py_join sep (u # ts)"

text \<open>\<^verbatim>\<open>s.split()\<close>: the maximal runs of code points that are not white space.\<close>

definition py_split :: "ustring \<Rightarrow> ustring list" where
  "py_split s = findall_runs (\<lambda>c. \<not> is_space c) [] s"

text \<open>\<^verbatim>\<open>s.strip()\<close>: white space removed at both ends.\<close>

definition py_strip :: "ustring \<Rightarrow> ustring" where
  "py_strip s = rev (dropWhile is_space (rev (dropWhile is_space s)))"

text \<open>\<^verbatim>\<open>s.replace(" ", "_")\<close>, the one use of \<^verbatim>\<open>replace\<close> the matcher makes.\<close>

definition replace_space_underscore :: "ustring \<Rightarrow> ustring" where
  "replace_space_underscore s = map (\<lambda>c. if c = 32 then 95 else c) s"

section \<open>Text normalizer (utils.py)\<close>

definition EN_STOPWORDS :: "ustring set" where
  "EN_STOPWORDS = set (map ustr
     [''a'', ''an'', ''the'', ''is'', ''are'', ''am'', ''was'', ''were'', ''to'', ''for'',
      ''of'', ''and'', ''or'', ''in'', ''on'', ''at'', ''how'', ''what''])"

text \<open>The Russian stop words, as code points (U+0438; U+0432; U+043D U+0430; ...).\<close>

definition RU_STOPWORDS :: "ustring set" where
  "RU_STOPWORDS = set
     [[1080], [1074], [1085, 1072], [1089], [1087, 1086], [1086], [1095, 1090, 1086],
      [1082, 1072, 1082], [1101, 1090, 1086], [1076, 1083, 1103], [1082], [1080, 1079]]"

text \<open>The class \<^verbatim>\<open>[a-ya yo]\<close> of \<open>contains_cyrillic\<close>: U+0430..U+044F and U+0451.\<close>

definition is_cyrillic_lower :: "nat \<Rightarrow> bool" where
  "is_cyrillic_lower c \<longleftrightarrow> (1072 \<le> c \<and> c \<le> 1103) \<or> c = 1105"

definition contains_cyrillic :: "ustring \<Rightarrow> bool" where
  "contains_cyrillic text = list_ex is_cyrillic_lower (py_lower text)"

text \<open>The class of \<open>tokenize\<close>: a-z, A-Z, U+0430..U+044F, U+0410..U+042F, U+0451,
  U+0401, 0-9.\<close>

definition is_token_char :: "nat \<Rightarrow> bool" where
  "is_token_char c \<longleftrightarrow>
     (97 \<le> c \<and> c \<le> 122) \<or> (65 \<le> c \<and> c \<le> 90) \<or> (1072 \<le> c \<and> c \<le> 1103) \<or>
     (1040 \<le> c \<and> c \<le> 1071) \<or> c = 1105 \<or> c = 1025 \<or> (48 \<le> c \<and> c \<le> 57)"

definition tokenize :: "ustring \<Rightarrow> ustring list" where
  "tokenize text = findall_runs is_token_char [] (py_lower text)"

definition normalize_text :: "ustring \<Rightarrow> ustring" where
  "normalize_text text =
     (let tokens = tokenize text in
      if tokens = [] then []
      else
        (let cleaned =
           (if contains_cyrillic text then filter (\<lambda>token. token \<notin> RU_STOPWORDS) tokens
            else filter (\<lambda>token. token \<notin> EN_STOPWORDS) tokens)
         in py_join [32] cleaned))"


section \<open>Errors and scores\<close>

text \<open>The exceptions the modelled code can raise.\<close>

datatype error = KeyError | IndexError | ValueError | ZeroDivisionError

text \<open>
  A score is a Python float. Float arithmetic is modelled as exact real arithmetic; the
  one special value the code uses, \<^verbatim>\<open>float("-inf")\<close>, is a constructor of its own,
  below every finite score. (NaN and +infinity are not modelled: no scoring branch below
  produces them.)
\<close>

datatype pyfloat = NegInf | Fin real

instantiation pyfloat :: linorder
begin

fun less_eq_pyfloat :: "pyfloat \<Rightarrow> pyfloat \<Rightarrow> bool" where
  "less_eq_pyfloat NegInf y = True"
| "less_eq_pyfloat (Fin a) NegInf = False"
| "less_eq_pyfloat (Fin a) (Fin b) = (a \<le> b)"

definition less_pyfloat :: "pyfloat \<Rightarrow> pyfloat \<Rightarrow> bool" where
  "less_pyfloat x y \<longleftrightarrow> x \<le> y \<and> \<not> y \<le> x"

instance
proof
  fix x y z :: pyfloat
  show "(x < y) = (x \<le> y \<and> \<not> y \<le> x)" by (simp add: less_pyfloat_def)
  show "x \<le> x" by (cases x) simp_all
  show "x \<le> y \<Longrightarrow> y \<le> z \<Longrightarrow> x \<le> z" by (cases x; cases y; cases z) simp_all
  show "x \<le> y \<Longrightarrow> y \<le> x \<Longrightarrow> x = y" by (cases x; cases y) simp_all
  show "x \<le> y \<or> y \<le> x" by (cases x; cases y) auto
qed

end

text \<open>
  \<^verbatim>\<open>max(scores)\<close>: the running maximum is replaced only by a strictly greater item;
  \<^verbatim>\<open>ValueError\<close> on an empty list.
\<close>

fun max_from :: "pyfloat list \<Rightarrow> pyfloat \<Rightarrow> pyfloat" where
  "max_from [] best = best"
| "max_from (v # vs) best = (if v > best then max_from vs v else max_from vs best)"

definition py_max :: "pyfloat list \<Rightarrow> error + pyfloat" where
  "py_max scores = (case scores of [] \<Rightarrow> Inl ValueError | v # vs \<Rightarrow> Inr (max_from vs v))"

text \<open>
  \<^verbatim>\<open>max(range(len(scores)), key=lambda idx: scores[idx])\<close>, the argmax of chat.py line
  195 and evaluate.py line 60: the indices are scanned in order, and the best index is
  replaced only when the key of the next one is strictly greater.
\<close>

fun argmax_from :: "pyfloat list \<Rightarrow> nat \<Rightarrow> nat \<Rightarrow> pyfloat \<Rightarrow> nat" where
  "argmax_from [] idx best_idx best_val = best_idx"
| "argmax_from (v # vs) idx best_idx best_val =
     (if v > best_val then argmax_from vs (Suc idx) idx v
      else argmax_from vs (Suc idx) best_idx best_val)"

definition argmax_index :: "pyfloat list \<Rightarrow> error + nat" where
  "argmax_index scores =
     (case scores of [] \<Rightarrow> Inl ValueError | v # vs \<Rightarrow> Inr (argmax_from vs 1 0 v))"

section \<open>Boolean scorer (utils.py, score_boolean)\<close>

fun score_boolean_loop :: "ustring set \<Rightarrow> ustring list list \<Rightarrow> real list \<Rightarrow> real list" where
  "score_boolean_loop query_set [] scores = scores"
| "score_boolean_loop query_set (doc # docs) scores =
     (let doc_set = set doc;
          matches = card (query_set \<inter> doc_set);
          score = real matches / real (card query_set)
      in score_boolean_loop query_set docs (scores @ [score]))"

definition score_boolean :: "ustring list \<Rightarrow> ustring list list \<Rightarrow> real list" where
  "score_boolean query_tokens doc_tokens =
     (if query_tokens = [] then map (\<lambda>_. 0) doc_tokens
      else score_boolean_loop (set query_tokens) doc_tokens [])"

section \<open>BM25 index builder and scorer (utils.py)\<close>

text \<open>
  A \<^verbatim>\<open>Counter\<close> is a dictionary from terms to counts that keeps its keys in the order
  of their first insertion: an association list with distinct keys.
\<close>

type_synonym counter = "(ustring \<times> nat) list"

fun counter_add :: "ustring \<Rightarrow> counter \<Rightarrow> counter" where
  "counter_add t [] = [(t, 1)]"
| "counter_add t ((k, n) # kvs) =
     (if k = t then (k, Suc n) # kvs else (k, n) # counter_add t kvs)"

text \<open>\<^verbatim>\<open>c.update(iterable)\<close> counts every element of the iterable; \<^verbatim>\<open>Counter(tokens)\<close>
  updates an empty counter.\<close>

definition counter_update :: "ustring list \<Rightarrow> counter \<Rightarrow> counter" where
  "counter_update ts c = fold counter_add ts c"

definition Counter :: "ustring list \<Rightarrow> counter" where
  "Counter tokens = counter_update tokens []"

record bm25_index =
  bm_idf :: "(ustring \<times> real) list"
  bm_doc_term_freqs :: "counter list"
  bm_doc_lengths :: "nat list"
  bm_avg_doc_length :: real
  bm_k1 :: real
  bm_b :: real

text \<open>The first loop of \<open>build_bm25_index\<close>; the state is
  \<open>(doc_freq, doc_term_freqs, doc_lengths)\<close>.\<close>

fun build_loop ::
  "ustring list list \<Rightarrow> counter \<times> counter list \<times> nat list \<Rightarrow> counter \<times> counter list \<times> nat list" where
  "build_loop [] st = st"
| "build_loop (tokens # rest) (doc_freq, doc_term_freqs, doc_lengths) =
     (let term_freq = Counter tokens
      in build_loop rest
           (counter_update (map fst term_freq) doc_freq,
            doc_term_freqs @ [term_freq],
            doc_lengths @ [length tokens]))"

definition build_bm25_index :: "ustring list list \<Rightarrow> bm25_index" where
  "build_bm25_index doc_tokens =
     (let total_docs = length doc_tokens in
      if total_docs = 0 then
        \<lparr>bm_idf = [], bm_doc_term_freqs = [], bm_doc_lengths = [],
         bm_avg_doc_length = 0, bm_k1 = 1.5, bm_b = 0.75\<rparr>
      else
        (case build_loop doc_tokens ([], [], []) of
           (doc_freq, doc_term_freqs, doc_lengths) \<Rightarrow>
             (let avg_doc_length = real (sum_list doc_lengths) / real total_docs;
                  idf = map (\<lambda>(term, freq).
                          (term, ln (1 + (real_of_int (int total_docs - int freq) + 0.5)
                                          / (real freq + 0.5)))) doc_freq
              in \<lparr>bm_idf = idf, bm_doc_term_freqs = doc_term_freqs,
                  bm_doc_lengths = doc_lengths, bm_avg_doc_length = avg_doc_length,
                  bm_k1 = 1.5, bm_b = 0.75\<rparr>)))"

text \<open>
  The inner loop of \<open>score_bm25\<close> over \<^verbatim>\<open>query_terms.items()\<close>, for one document. A
  float division by zero raises \<^verbatim>\<open>ZeroDivisionError\<close>.
\<close>

fun bm25_doc_score ::
  "(ustring \<times> real) list \<Rightarrow> real \<Rightarrow> real \<Rightarrow> real \<Rightarrow> counter \<Rightarrow> nat \<Rightarrow> counter \<Rightarrow> real \<Rightarrow> error + real" where
  "bm25_doc_score idf k1 b avg_doc_length term_freqs doc_length [] score = Inr score"
| "bm25_doc_score idf k1 b avg_doc_length term_freqs doc_length ((term, qf) # rest) score =
     (case map_of term_freqs term of
        None \<Rightarrow> bm25_doc_score idf k1 b avg_doc_length term_freqs doc_length rest score
      | Some term_tf \<Rightarrow>
          (let term_idf = (case map_of idf term of None \<Rightarrow> 0 | Some v \<Rightarrow> v);
               numerator = real term_tf * (k1 + 1);
               denominator = real term_tf + k1 * (1 - b + b * (real doc_length / avg_doc_length))
           in if denominator = 0 then Inl ZeroDivisionError
              else bm25_doc_score idf k1 b avg_doc_length term_freqs doc_length rest
                     (score + term_idf * (numerator / denominator) * real qf)))"

text \<open>The outer loop over \<^verbatim>\<open>zip(doc_term_freqs, doc_lengths)\<close>.\<close>

fun score_bm25_loop ::
  "(ustring \<times> real) list \<Rightarrow> real \<Rightarrow> real \<Rightarrow> real \<Rightarrow> counter \<Rightarrow> (counter \<times> nat) list \<Rightarrow> real list \<Rightarrow> error + real list" where
  "score_bm25_loop idf k1 b avg_doc_length query_terms [] scores = Inr scores"
| "score_bm25_loop idf k1 b avg_doc_length query_terms ((term_freqs, doc_length) # rest) scores =
     (case bm25_doc_score idf k1 b avg_doc_length term_freqs doc_length query_terms 0 of
        Inl e \<Rightarrow> Inl e
      | Inr score \<Rightarrow>
          score_bm25_loop idf k1 b avg_doc_length query_terms rest (scores @ [score]))"

definition score_bm25 :: "ustring list \<Rightarrow> bm25_index \<Rightarrow> error + real list" where
  "score_bm25 query_tokens ix =
     (if query_tokens = [] then Inr (map (\<lambda>_. 0) (bm_doc_term_freqs ix))
      else if bm_avg_doc_length ix = 0 then Inr (map (\<lambda>_. 0) (bm_doc_term_freqs ix))
      else score_bm25_loop (bm_idf ix) (bm_k1 ix) (bm_b ix) (bm_avg_doc_length ix)
             (Counter query_tokens) (zip (bm_doc_term_freqs ix) (bm_doc_lengths ix)) [])"

section \<open>Corpus preparation (utils.py, prepare_corpus)\<close>

text \<open>
  Dictionaries with a fixed set of keys are records; a key that may be absent is a field
  of type \<open>option\<close>, so that \<^verbatim>\<open>d[key]\<close> on an absent key is \<^verbatim>\<open>KeyError\<close> and
  \<^verbatim>\<open>d.get(key, default)\<close> is the default.
\<close>

record example =
  ex_tag :: "ustring option"
  ex_pattern :: "ustring option"
  ex_responses :: "ustring list option"
  ex_source_url :: "ustring option"

record intent =
  in_tag :: "ustring option"
  in_responses :: "ustring list option"
  in_patterns :: "ustring list option"

text \<open>The inner loop over the patterns of one intent; the state is \<open>(corpus, examples)\<close>.\<close>

fun patterns_loop ::
  "ustring \<Rightarrow> ustring list \<Rightarrow> ustring list \<Rightarrow> ustring list \<times> example list \<Rightarrow> ustring list \<times> example list" where
  "patterns_loop tag responses [] st = st"
| "patterns_loop tag responses (pattern # rest) (corpus, examples) =
     (let normalized = normalize_text pattern in
      if normalized = [] then patterns_loop tag responses rest (corpus, examples)
      else patterns_loop tag responses rest
             (corpus @ [normalized],
              examples @ [\<lparr>ex_tag = Some tag, ex_pattern = Some pattern,
                            ex_responses = Some responses, ex_source_url = None\<rparr>]))"

fun intents_loop ::
  "intent list \<Rightarrow> ustring list \<times> example list \<Rightarrow> error + ustring list \<times> example list" where
  "intents_loop [] st = Inr st"
| "intents_loop (i # rest) st =
     (case in_tag i of
        None \<Rightarrow> Inl KeyError
      | Some tag \<Rightarrow>
          (let responses = (case in_responses i of None \<Rightarrow> [] | Some r \<Rightarrow> r);
               patterns = (case in_patterns i of None \<Rightarrow> [] | Some ps \<Rightarrow> ps)
           in intents_loop rest (patterns_loop tag responses patterns st)))"

text \<open>\<open>intents_data\<close> is the value under the key \<^verbatim>\<open>"intents"\<close>, \<open>None\<close> when the key
  is absent.\<close>

definition prepare_corpus :: "intent list option \<Rightarrow> error + ustring list \<times> example list" where
  "prepare_corpus intents_data =
     intents_loop (case intents_data of None \<Rightarrow> [] | Some is \<Rightarrow> is) ([], [])"

section \<open>Scorer (chat.py, compute_scores)\<close>

text \<open>
  The vector branch calls the vectorizer and \<^verbatim>\<open>cosine_similarity\<close> of an external
  library. The vectorizer's \<^verbatim>\<open>transform\<close> is a function stored in the payload; the
  similarity primitive is modelled in exact arithmetic as the library documents it: the
  dot product of the query with each row of the matrix, both scaled to norm 1 (a zero
  vector is left as it is). It yields one value per row.
\<close>

definition dot :: "real list \<Rightarrow> real list \<Rightarrow> real" where
  "dot x y = sum_list (map2 (*) x y)"

definition unit_norm :: "real list \<Rightarrow> real" where
  "unit_norm x = (if sqrt (dot x x) = 0 then 1 else sqrt (dot x x))"

definition cosine_similarity :: "real list \<Rightarrow> real list list \<Rightarrow> real list" where
  "cosine_similarity query_vector matrix =
     map (\<lambda>row. dot query_vector row / (unit_norm query_vector * unit_norm row)) matrix"

record index_payload =
  p_method :: "ustring option"
  p_examples :: "example list option"
  p_threshold :: "real option"
  p_vectorizer :: "(ustring \<Rightarrow> real list) option"
  p_matrix :: "real list list option"
  p_bm25_index :: "bm25_index option"
  p_doc_tokens :: "ustring list list option"

definition compute_scores :: "ustring \<Rightarrow> index_payload \<Rightarrow> error + pyfloat list" where
  "compute_scores normalized_query p =
     (let meth = (case p_method p of None \<Rightarrow> ustr ''tfidf'' | Some m \<Rightarrow> m) in
      if meth = ustr ''tfidf'' \<or> meth = ustr ''bow'' then
        (case p_vectorizer p of
           None \<Rightarrow> Inl KeyError
         | Some vectorizer \<Rightarrow>
             (case p_matrix p of
                None \<Rightarrow> Inl KeyError
              | Some matrix \<Rightarrow>
                  Inr (map Fin (cosine_similarity (vectorizer normalized_query) matrix))))
      else if meth = ustr ''bm25'' then
        (let query_tokens = py_split normalized_query in
         case p_bm25_index p of
           None \<Rightarrow> Inl KeyError
         | Some ix \<Rightarrow>
             (case score_bm25 query_tokens ix of
                Inl e \<Rightarrow> Inl e
              | Inr scores \<Rightarrow> Inr (map Fin scores)))
      else
        (let query_tokens = py_split normalized_query in
         case p_doc_tokens p of
           None \<Rightarrow> Inl KeyError
         | Some doc_tokens \<Rightarrow> Inr (map Fin (score_boolean query_tokens doc_tokens))))"

section \<open>Matcher (chat.py, get_answer_with_source)\<close>

definition FALLBACK_MESSAGE :: ustring where
  "FALLBACK_MESSAGE = ustr ''I am not sure about that yet. Please rephrase your question.''"

text \<open>
  \<open>normalized_topic\<close> compares whole tags, so it needs \<^verbatim>\<open>str.lower()\<close> on every
  code point (and, at a capital sigma, on its neighbours), which depends on the Unicode
  tables of the interpreter. The built-in is therefore a parameter, \<open>lower\<close>, of
  \<open>normalized_topic\<close> and of its callers, and nothing is assumed of it: what is proved
  holds for the interpreter's own \<^verbatim>\<open>str.lower\<close>. (On ASCII text \<open>py_lower\<close> is that
  function.)
\<close>

definition normalized_topic :: "(ustring \<Rightarrow> ustring) \<Rightarrow> ustring \<Rightarrow> ustring" where
  "normalized_topic lower tag =
     (let cleaned = lower (py_strip tag);
          cleaned' = (if take 4 cleaned = ustr ''web_'' then drop 4 cleaned else cleaned)
      in replace_space_underscore cleaned')"

text \<open>\<^verbatim>\<open>str(example.get("tag", "general"))\<close>.\<close>

definition tag_or_general :: "example \<Rightarrow> ustring" where
  "tag_or_general e = (case ex_tag e of None \<Rightarrow> ustr ''general'' | Some t \<Rightarrow> t)"

text \<open>
  The topic filter loop (chat.py lines 188-190) over \<^verbatim>\<open>enumerate(examples)\<close>; an
  assignment \<^verbatim>\<open>scores[idx] = ...\<close> past the end of the list raises \<^verbatim>\<open>IndexError\<close>.
\<close>

fun mask_topic ::
  "(ustring \<Rightarrow> ustring) \<Rightarrow> ustring \<Rightarrow> example list \<Rightarrow> nat \<Rightarrow> pyfloat list \<Rightarrow> error + pyfloat list" where
  "mask_topic lower topic_filter [] idx scores = Inr scores"
| "mask_topic lower topic_filter (e # es) idx scores =
     (if normalized_topic lower (tag_or_general e) \<noteq> topic_filter then
        (if idx < length scores
         then mask_topic lower topic_filter es (Suc idx) (scores[idx := NegInf])
         else Inl IndexError)
      else mask_topic lower topic_filter es (Suc idx) scores)"

text \<open>\<^verbatim>\<open>random.choice(responses)\<close> on a non-empty list; \<open>rnd\<close> is the draw of the
  random source.\<close>

definition random_choice :: "nat \<Rightarrow> ustring list \<Rightarrow> ustring" where
  "random_choice rnd responses = responses ! (rnd mod length responses)"

definition payload_threshold :: "index_payload \<Rightarrow> real" where
  "payload_threshold p = (case p_threshold p of None \<Rightarrow> 0.25 | Some t \<Rightarrow> t)"

text \<open>Lines 192-205 of chat.py: the decision on the masked score list.\<close>

definition select_answer ::
  "nat \<Rightarrow> example list \<Rightarrow> real \<Rightarrow> pyfloat list \<Rightarrow> error + ustring \<times> pyfloat \<times> ustring" where
  "select_answer rnd examples threshold scores =
     (if scores = [] \<or> py_max scores = Inr NegInf then Inr (FALLBACK_MESSAGE, Fin 0, [])
      else
        (case argmax_index scores of
           Inl e \<Rightarrow> Inl e
         | Inr best_idx \<Rightarrow>
             (let best_score = scores ! best_idx in
              if best_score < Fin threshold then Inr (FALLBACK_MESSAGE, best_score, [])
              else if length examples \<le> best_idx then Inl IndexError
              else
                (case ex_responses (examples ! best_idx) of
                   None \<Rightarrow> Inl KeyError
                 | Some responses \<Rightarrow>
                     (let answer = (if responses \<noteq> [] then random_choice rnd responses
                                    else FALLBACK_MESSAGE);
                          source_url = (case ex_source_url (examples ! best_idx) of
                                          None \<Rightarrow> [] | Some u \<Rightarrow> u)
                      in Inr (answer, best_score, source_url))))))"

definition get_answer_with_source ::
  "(ustring \<Rightarrow> ustring) \<Rightarrow> nat \<Rightarrow> ustring \<Rightarrow> index_payload \<Rightarrow> ustring \<Rightarrow>
     error + ustring \<times> pyfloat \<times> ustring" where
  "get_answer_with_source lower rnd user_text p topic_filter =
     (let normalized = normalize_text user_text in
      if normalized = [] then Inr (FALLBACK_MESSAGE, Fin 0, [])
      else
        (case p_examples p of
           None \<Rightarrow> Inl KeyError
         | Some examples \<Rightarrow>
             (let threshold = payload_threshold p in
              case compute_scores normalized p of
                Inl e \<Rightarrow> Inl e
              | Inr scores0 \<Rightarrow>
                  (case (if topic_filter \<noteq> ustr ''all''
                         then mask_topic lower topic_filter examples 0 scores0
                         else Inr scores0) of
                     Inl e \<Rightarrow> Inl e
                   | Inr scores \<Rightarrow> select_answer rnd examples threshold scores))))"

section \<open>Evaluator (evaluate.py, evaluate_method)\<close>

record eval_result =
  er_method :: ustring
  er_total :: nat
  er_correct :: nat
  er_fallbacks :: nat

definition accuracy :: "eval_result \<Rightarrow> real" where
  "accuracy r = (if er_total r = 0 then 0 else real (er_correct r) / real (er_total r))"

definition fallback_rate :: "eval_result \<Rightarrow> real" where
  "fallback_rate r = (if er_total r = 0 then 0 else real (er_fallbacks r) / real (er_total r))"

text \<open>
  The body of the loop of \<open>evaluate_method\<close> (evaluate.py lines 47-68) for the example at
  \<open>query_idx\<close>; the state is \<open>(total_n, correct, fallbacks)\<close>, the three counters.
\<close>

definition eval_step ::
  "index_payload \<Rightarrow> example list \<Rightarrow> real \<Rightarrow> nat \<Rightarrow> example \<Rightarrow> nat \<times> nat \<times> nat \<Rightarrow> error + nat \<times> nat \<times> nat" where
  "eval_step p examples threshold query_idx ex st =
     (case st of (total_n, correct, fallbacks) \<Rightarrow>
      (case ex_pattern ex of
         None \<Rightarrow> Inl KeyError
       | Some pattern \<Rightarrow>
           (let normalized = normalize_text pattern in
            if normalized = [] then Inr (total_n, correct, fallbacks)
            else
              (case compute_scores normalized p of
                 Inl e \<Rightarrow> Inl e
               | Inr scores0 \<Rightarrow>
                   if scores0 = [] then Inr (total_n, correct, fallbacks)
                   else if length scores0 \<le> query_idx then Inl IndexError
                   else
                     (let scores = scores0[query_idx := NegInf] in
                      case argmax_index scores of
                        Inl e \<Rightarrow> Inl e
                      | Inr best_idx \<Rightarrow>
                          (let best_score = scores ! best_idx in
                           if best_score < Fin threshold
                           then Inr (total_n + 1, correct, fallbacks + 1)
                           else if length examples \<le> best_idx then Inl IndexError
                           else
                             (case ex_tag (examples ! best_idx) of
                                None \<Rightarrow> Inl KeyError
                              | Some best_tag \<Rightarrow>
                                  (case ex_tag ex of
                                     None \<Rightarrow> Inl KeyError
                                   | Some own_tag \<Rightarrow>
                                       if best_tag = own_tag
                                       then Inr (total_n + 1, correct + 1, fallbacks)
                                       else Inr (total_n + 1, correct, fallbacks)))))))))"

fun eval_loop ::
  "index_payload \<Rightarrow> example list \<Rightarrow> real \<Rightarrow> nat \<Rightarrow> example list \<Rightarrow> nat \<times> nat \<times> nat \<Rightarrow> error + nat \<times> nat \<times> nat" where
  "eval_loop p examples threshold query_idx [] st = Inr st"
| "eval_loop p examples threshold query_idx (ex # rest) st =
     (case eval_step p examples threshold query_idx ex st of
        Inl e \<Rightarrow> Inl e
      | Inr st' \<Rightarrow> eval_loop p examples threshold (Suc query_idx) rest st')"

text \<open>
  \<open>evaluate_method\<close> on the payload that \<^verbatim>\<open>load_index(method)\<close> returned (loading the
  file is outside the model).
\<close>

definition evaluate_method :: "ustring \<Rightarrow> index_payload \<Rightarrow> error + eval_result" where
  "evaluate_method meth payload =
     (case p_examples payload of
        None \<Rightarrow> Inl KeyError
      | Some examples \<Rightarrow>
          (let threshold = payload_threshold payload in
           case eval_loop payload examples threshold 0 examples (0, 0, 0) of
             Inl e \<Rightarrow> Inl e
           | Inr (total_n, correct, fallbacks) \<Rightarrow>
               Inr \<lparr>er_method = meth, er_total = total_n, er_correct = correct,
                    er_fallbacks = fallbacks\<rparr>))"

section \<open>The BM25 formula as the specification words it\<close>

text \<open>
  The reference the scorer is compared with: document frequency, inverse document
  frequency, mean document length and the score of one document, written from the
  formula and not from the loops of the code.
\<close>

definition spec_df :: "ustring list list \<Rightarrow> ustring \<Rightarrow> nat" where
  "spec_df docs t = length (filter (\<lambda>d. t \<in> set d) docs)"

definition spec_idf :: "ustring list list \<Rightarrow> ustring \<Rightarrow> real" where
  "spec_idf docs t =
     ln (1 + (real (length docs) - real (spec_df docs t) + 0.5) / (real (spec_df docs t) + 0.5))"

definition spec_avg_doc_len :: "ustring list list \<Rightarrow> real" where
  "spec_avg_doc_len docs = real (sum_list (map length docs)) / real (length docs)"

definition spec_bm25_score :: "ustring list list \<Rightarrow> ustring list \<Rightarrow> ustring list \<Rightarrow> real" where
  "spec_bm25_score docs q d =
     (\<Sum>t \<in> set q \<inter> set d.
        spec_idf docs t
        * (real (count_list d t) * (1.5 + 1)
           / (real (count_list d t)
              + 1.5 * (1 - 0.75 + 0.75 * (real (length d) / spec_avg_doc_len docs))))
        * real (count_list q t))"

text \<open>The value of \<open>doc_freq\<close> when the first loop of \<open>build_bm25_index\<close> has run
  over \<open>docs\<close>, starting from the counter \<open>df\<close>.\<close>

definition doc_freq_of :: "ustring list list \<Rightarrow> counter \<Rightarrow> counter" where
  "doc_freq_of docs df = fold (\<lambda>tokens df. counter_update (map fst (Counter tokens)) df) docs df"

section \<open>Alignment of the scoring structures with the examples\<close>

text \<open>
  The conditions the alignment claims are stated under. \<open>one_entry_per_example p n\<close>: the
  scoring structure of the payload's method (the document matrix, the two per-document
  lists of the BM25 index, or the tokenized documents) is present and has \<open>n\<close> entries.
  \<open>bm25_well_formed\<close>: the constants of a BM25 index are in the range in which no
  denominator of the score vanishes; the index \<open>build_bm25_index\<close> returns is of this
  kind (\<open>k1 = 1.5\<close>, \<open>b = 0.75\<close>, a mean length that is not negative).
\<close>

definition bm25_well_formed :: "bm25_index \<Rightarrow> bool" where
  "bm25_well_formed ix \<longleftrightarrow>
     0 < bm_k1 ix \<and> 0 \<le> bm_b ix \<and> bm_b ix < 1 \<and> 0 \<le> bm_avg_doc_length ix"

definition payload_method :: "index_payload \<Rightarrow> ustring" where
  "payload_method p = (case p_method p of None \<Rightarrow> ustr ''tfidf'' | Some m \<Rightarrow> m)"

definition one_entry_per_example :: "index_payload \<Rightarrow> nat \<Rightarrow> bool" where
  "one_entry_per_example p n =
     (if payload_method p = ustr ''tfidf'' \<or> payload_method p = ustr ''bow'' then
        p_vectorizer p \<noteq> None \<and> (case p_matrix p of None \<Rightarrow> False | Some matrix \<Rightarrow> length matrix = n)
      else if payload_method p = ustr ''bm25'' then
        (case p_bm25_index p of
           None \<Rightarrow> False
         | Some ix \<Rightarrow> length (bm_doc_term_freqs ix) = n \<and> length (bm_doc_lengths ix) = n)
      else (case p_doc_tokens p of None \<Rightarrow> False | Some doc_tokens \<Rightarrow> length doc_tokens = n))"

text \<open>The patterns \<open>prepare_corpus\<close> reads, in order, and the ones it keeps.\<close>

definition patterns_of :: "intent \<Rightarrow> ustring list" where
  "patterns_of i = (case in_patterns i of None \<Rightarrow> [] | Some ps \<Rightarrow> ps)"

definition keeps :: "ustring \<Rightarrow> bool" where
  "keeps pattern \<longleftrightarrow> normalize_text pattern \<noteq> []"

definition all_patterns :: "intent list option \<Rightarrow> ustring list" where
  "all_patterns intents_data =
     concat (map patterns_of (case intents_data of None \<Rightarrow> [] | Some is \<Rightarrow> is))"

section \<open>Leave-one-out evaluation as the specification words it\<close>

text \<open>
  The reference the evaluator is compared with, example by example. \<open>spec_query_scores p
  exs i\<close> is the score list the example at position \<open>i\<close> is ranked on: the whole corpus
  scored on its normalized pattern, with position \<open>i\<close> itself forced to \<open>-infinity\<close>; it
  is \<open>None\<close> when the example is skipped (its pattern normalizes to the empty text, or
  there is nothing to rank). The example is a fallback when the winning score is below
  the threshold, and correct when it is not and the winner carries the example's tag.
\<close>

definition spec_query_scores :: "index_payload \<Rightarrow> example list \<Rightarrow> nat \<Rightarrow> pyfloat list option" where
  "spec_query_scores p exs i =
     (case ex_pattern (exs ! i) of
        None \<Rightarrow> None
      | Some pattern \<Rightarrow>
          if normalize_text pattern = [] then None
          else
            (case compute_scores (normalize_text pattern) p of
               Inl e \<Rightarrow> None
             | Inr scores \<Rightarrow>
                 if scores = [] \<or> length scores \<le> i then None
                 else Some (scores[i := NegInf])))"

definition spec_attempted :: "index_payload \<Rightarrow> example list \<Rightarrow> nat \<Rightarrow> bool" where
  "spec_attempted p exs i \<longleftrightarrow> spec_query_scores p exs i \<noteq> None"

definition spec_fallback :: "index_payload \<Rightarrow> example list \<Rightarrow> real \<Rightarrow> nat \<Rightarrow> bool" where
  "spec_fallback p exs th i =
     (case spec_query_scores p exs i of
        None \<Rightarrow> False
      | Some scores \<Rightarrow>
          (case argmax_index scores of
             Inl e \<Rightarrow> False
           | Inr best \<Rightarrow> scores ! best < Fin th))"

definition spec_correct :: "index_payload \<Rightarrow> example list \<Rightarrow> real \<Rightarrow> nat \<Rightarrow> bool" where
  "spec_correct p exs th i =
     (case spec_query_scores p exs i of
        None \<Rightarrow> False
      | Some scores \<Rightarrow>
          (case argmax_index scores of
             Inl e \<Rightarrow> False
           | Inr best \<Rightarrow>
               \<not> scores ! best < Fin th \<and> ex_tag (exs ! best) = ex_tag (exs ! i)))"

section \<open>A small index, for concrete runs\<close>

text \<open>
  Three examples under the Boolean method, with no stored threshold: two patterns of the
  topic \<open>account\<close> that share their tokens, and one of the topic \<open>weather\<close> that
  carries a source.
\<close>

definition demo_examples :: "example list" where
  "demo_examples =
     [\<lparr>ex_tag = Some (ustr ''account''), ex_pattern = Some (ustr ''Reset my password''),
       ex_responses = Some [ustr ''Go to settings.''], ex_source_url = None\<rparr>,
      \<lparr>ex_tag = Some (ustr ''web_Weather''), ex_pattern = Some (ustr ''What is the weather today?''),
       ex_responses = Some [ustr ''Sunny.''], ex_source_url = Some (ustr ''http://w'')\<rparr>,
      \<lparr>ex_tag = Some (ustr ''account''), ex_pattern = Some (ustr ''password reset''),
       ex_responses = Some [ustr ''Use the reset link.''], ex_source_url = None\<rparr>]"

definition demo_payload :: index_payload where
  "demo_payload =
     \<lparr>p_method = Some (ustr ''boolean''), p_examples = Some demo_examples, p_threshold = None,
      p_vectorizer = None, p_matrix = None, p_bm25_index = None,
      p_doc_tokens = Some [[ustr ''reset'', ustr ''my'', ustr ''password''],
                           [ustr ''weather'', ustr ''today''],
                           [ustr ''password'', ustr ''reset'']]\<rparr>"

text \<open>The same index cut down to its first example, with the threshold 0.1, and an
  intents file with one pattern that normalizes to the empty text.\<close>

definition demo_single :: index_payload where
  "demo_single =
     \<lparr>p_method = Some (ustr ''boolean''), p_examples = Some [hd demo_examples],
      p_threshold = Some 0.1, p_vectorizer = None, p_matrix = None, p_bm25_index = None,
      p_doc_tokens = Some [[ustr ''reset'', ustr ''my'', ustr ''password'']]\<rparr>"

definition demo_intents :: "intent list option" where
  "demo_intents =
     Some [\<lparr>in_tag = Some (ustr ''account''), in_responses = Some [ustr ''Go to settings.''],
            in_patterns = Some [ustr ''Reset my password'', ustr ''the'', ustr ''password reset'']\<rparr>]"

text \<open>An index with no stored threshold on which the best score of the first example is
  exactly 1/4 and that of the third is 1/5.\<close>

definition demo_quarter_examples :: "example list" where
  "demo_quarter_examples =
     [\<lparr>ex_tag = Some (ustr ''router''), ex_pattern = Some (ustr ''reset router now please''),
       ex_responses = Some [ustr ''Hold the button.''], ex_source_url = None\<rparr>,
      \<lparr>ex_tag = Some (ustr ''router''), ex_pattern = Some (ustr ''reset''),
       ex_responses = Some [ustr ''Hold the button.''], ex_source_url = None\<rparr>,
      \<lparr>ex_tag = Some (ustr ''greek''), ex_pattern = Some (ustr ''reset alpha beta gamma delta''),
       ex_responses = Some [ustr ''Letters.''], ex_source_url = None\<rparr>]"

definition demo_quarter :: index_payload where
  "demo_quarter =
     \<lparr>p_method = Some (ustr ''boolean''), p_examples = Some demo_quarter_examples,
      p_threshold = None, p_vectorizer = None, p_matrix = None, p_bm25_index = None,
      p_doc_tokens = Some [[ustr ''reset'', ustr ''router'', ustr ''now'', ustr ''please''],
                           [ustr ''reset''],
                           [ustr ''reset'', ustr ''alpha'', ustr ''beta'', ustr ''gamma'',
                            ustr ''delta'']]\<rparr>"

section \<open>Properties of the text normalizer\<close>

lemma findall_runs_append:
  "\<forall>c\<in>set t. P c \<Longrightarrow> findall_runs P cur (t @ rest) = findall_runs P (cur @ t) rest"
  by (induction t arbitrary: cur) auto

lemma findall_runs_join:
  assumes "\<not> P s"
  shows "(\<forall>t\<in>set ts. t \<noteq> [] \<and> (\<forall>c\<in>set t. P c)) \<Longrightarrow> findall_runs P [] (py_join [s] ts) = ts"
proof (induction "[s]" ts rule: py_join.induct)
  case 1
  then show ?case by simp
next
  case (2 t)
  then show ?case using findall_runs_append [of t P "[]" "[]"] by simp
next
  case (3 t u ts)
  have "findall_runs P [] (t @ s # py_join [s] (u # ts)) = findall_runs P t (s # py_join [s] (u # ts))"
    using 3 findall_runs_append [of t P "[]"] by simp
  also have "\<dots> = t # findall_runs P [] (py_join [s] (u # ts))"
    using 3 assms by simp
  finally show ?case using 3 by simp
qed

lemma findall_runs_tokens:
  "t \<in> set (findall_runs P cur s) \<Longrightarrow> \<forall>c\<in>set cur. P c \<Longrightarrow>
     t \<noteq> [] \<and> (\<forall>c\<in>set t. P c \<and> (c \<in> set cur \<or> c \<in> set s))"
proof (induction s arbitrary: cur)
  case Nil
  then show ?case by (simp split: if_splits)
next
  case (Cons a s)
  show ?case
  proof (cases "P a")
    case True
    with Cons.prems have "t \<in> set (findall_runs P (cur @ [a]) s)" "\<forall>c\<in>set (cur @ [a]). P c"
      by simp_all
    from Cons.IH [OF this] show ?thesis by auto
  next
    case False
    with Cons.prems have "(cur \<noteq> [] \<and> t = cur) \<or> t \<in> set (findall_runs P [] s)"
      by (simp split: if_splits)
    then show ?thesis
    proof
      assume "cur \<noteq> [] \<and> t = cur"
      with Cons.prems show ?thesis by simp
    next
      assume "t \<in> set (findall_runs P [] s)"
      from Cons.IH [OF this] show ?thesis by simp
    qed
  qed
qed

lemma lower_cp_token_stable:
  "d \<in> set (lower_cp c) \<Longrightarrow> is_token_char d \<Longrightarrow> lower_cp d = [d]"
  by (auto simp: lower_cp_def is_token_char_def split: if_splits)

lemma py_lower_token_stable:
  "d \<in> set (py_lower x) \<Longrightarrow> is_token_char d \<Longrightarrow> lower_cp d = [d]"
  by (auto simp: py_lower_def dest: lower_cp_token_stable)

lemma py_lower_stable: "\<forall>c\<in>set y. lower_cp c = [c] \<Longrightarrow> py_lower y = y"
  by (induction y) (auto simp: py_lower_def)

lemma set_py_join: "set (py_join [s] ts) \<subseteq> insert s (\<Union>(set ` set ts))"
  by (induction "[s]" ts rule: py_join.induct) auto

lemma set_py_join_tokens: "t \<in> set ts \<Longrightarrow> set t \<subseteq> set (py_join [s] ts)"
  by (induction "[s]" ts rule: py_join.induct) auto

lemma tokenize_tokens:
  assumes "t \<in> set (tokenize x)"
  shows "t \<noteq> [] \<and> (\<forall>c\<in>set t. is_token_char c \<and> lower_cp c = [c] \<and> c \<in> set (py_lower x))"
  using findall_runs_tokens [of t is_token_char "[]" "py_lower x"] assms
  by (auto simp: tokenize_def dest: py_lower_token_stable)

lemma normalize_text_join:
  "normalize_text x =
     py_join [32] (filter (\<lambda>t. t \<notin> (if contains_cyrillic x then RU_STOPWORDS else EN_STOPWORDS)) (tokenize x))"
  by (simp add: normalize_text_def Let_def)

lemma tokenize_join:
  assumes "\<forall>t\<in>set ts. t \<noteq> [] \<and> (\<forall>c\<in>set t. is_token_char c \<and> lower_cp c = [c])"
  shows "tokenize (py_join [32] ts) = ts"
proof -
  have sp: "lower_cp 32 = [32]" "\<not> is_token_char 32"
    by (simp_all add: lower_cp_def is_token_char_def)
  have "\<forall>c\<in>set (py_join [32] ts). lower_cp c = [c]"
    using set_py_join [of 32 ts] assms sp by auto
  then have "py_lower (py_join [32] ts) = py_join [32] ts"
    by (rule py_lower_stable)
  then show ?thesis
    using findall_runs_join [of is_token_char 32 ts] assms sp by (simp add: tokenize_def)
qed

lemma tokenize_filtered:
  "tokenize (py_join [32] (filter Q (tokenize x))) = filter Q (tokenize x)"
  by (rule tokenize_join) (use tokenize_tokens in auto)

lemma lower_cp_space: "lower_cp 32 = [32]"
  by (simp add: lower_cp_def)

lemma join_stable:
  assumes "\<forall>t\<in>set ts. \<forall>c\<in>set t. lower_cp c = [c]"
  shows "\<forall>c\<in>set (py_join [32] ts). lower_cp c = [c]"
  using set_py_join [of 32 ts] assms lower_cp_space by blast

lemma contains_cyrillic_filtered:
  assumes cy: "contains_cyrillic (py_join [32] (filter Q (tokenize x)))"
  shows "contains_cyrillic x"
proof -
  let ?ts = "filter Q (tokenize x)"
  have "\<forall>t\<in>set ?ts. \<forall>c\<in>set t. lower_cp c = [c]"
    using tokenize_tokens by auto
  then have "\<forall>c\<in>set (py_join [32] ?ts). lower_cp c = [c]"
    by (rule join_stable)
  then have "py_lower (py_join [32] ?ts) = py_join [32] ?ts"
    by (rule py_lower_stable)
  with cy obtain c where c: "c \<in> set (py_join [32] ?ts)" "is_cyrillic_lower c"
    by (auto simp: contains_cyrillic_def list_ex_iff)
  then have "c \<noteq> 32" by (auto simp: is_cyrillic_lower_def)
  with c obtain t where "t \<in> set ?ts" "c \<in> set t"
    using set_py_join [of 32 ?ts] by blast
  then have "c \<in> set (py_lower x)" using tokenize_tokens [of t x] by simp
  with c show ?thesis by (auto simp: contains_cyrillic_def list_ex_iff)
qed

lemmas text_eval = normalize_text_def tokenize_def py_lower_def lower_cp_def is_token_char_def
  contains_cyrillic_def is_cyrillic_lower_def RU_STOPWORDS_def EN_STOPWORDS_def ustr_def

text \<open>
  Claim C2, as stated, fails: normalizing twice is not always normalizing once. The
  language is detected on the text passed in, so a text whose only Cyrillic letters are in
  Russian stop words is cleaned with the Russian set, and its result, now without any
  Cyrillic letter, is cleaned with the English set on the second pass. The text
  U+0438 U+0020 "the" normalizes to "the", which normalizes to the empty string.
\<close>

theorem normalize_text_not_idempotent:
  "normalize_text (normalize_text [1080, 32, 116, 104, 101]) \<noteq> normalize_text [1080, 32, 116, 104, 101]"
  by (simp add: text_eval)

lemma py_join_filtered_inj:
  assumes "py_join [32] (filter Q (filter R (tokenize x))) = py_join [32] (filter R (tokenize x))"
  shows "filter Q (filter R (tokenize x)) = filter R (tokenize x)"
proof -
  have "filter Q (filter R (tokenize x)) = tokenize (py_join [32] (filter Q (filter R (tokenize x))))"
    by (rule sym, rule tokenize_join) (use tokenize_tokens in auto)
  also have "\<dots> = tokenize (py_join [32] (filter R (tokenize x)))"
    by (simp only: assms)
  also have "\<dots> = filter R (tokenize x)"
    by (rule tokenize_filtered)
  finally show ?thesis .
qed

text \<open>
  Claim C2, amended: \<open>normalize_text (normalize_text x) = normalize_text x\<close> holds
  exactly when \<open>x\<close> contains no Cyrillic letter, or its normalization still contains one
  (both passes then pick the same stop word set), or no token of its normalization is an
  English stop word.
\<close>

theorem normalize_text_idempotent_iff:
  "normalize_text (normalize_text x) = normalize_text x \<longleftrightarrow>
     \<not> contains_cyrillic x \<or> contains_cyrillic (normalize_text x) \<or>
     (\<forall>t\<in>set (tokenize (normalize_text x)). t \<notin> EN_STOPWORDS)"
proof (cases "contains_cyrillic x")
  case False
  then have nx: "normalize_text x = py_join [32] (filter (\<lambda>t. t \<notin> EN_STOPWORDS) (tokenize x))"
    by (simp add: normalize_text_join)
  have "\<not> contains_cyrillic (normalize_text x)"
    using False contains_cyrillic_filtered [of "\<lambda>t. t \<notin> EN_STOPWORDS" x] by (auto simp: nx)
  then have "normalize_text (normalize_text x) =
      py_join [32] (filter (\<lambda>t. t \<notin> EN_STOPWORDS) (tokenize (normalize_text x)))"
    by (simp add: normalize_text_join)
  also have "\<dots> = normalize_text x"
    by (simp add: nx tokenize_filtered)
  finally show ?thesis using False by simp
next
  case True
  then have nx: "normalize_text x = py_join [32] (filter (\<lambda>t. t \<notin> RU_STOPWORDS) (tokenize x))"
    by (simp add: normalize_text_join)
  have toks: "tokenize (normalize_text x) = filter (\<lambda>t. t \<notin> RU_STOPWORDS) (tokenize x)"
    by (simp add: nx tokenize_filtered)
  show ?thesis
  proof (cases "contains_cyrillic (normalize_text x)")
    case still: True
    then have "normalize_text (normalize_text x) =
        py_join [32] (filter (\<lambda>t. t \<notin> RU_STOPWORDS) (tokenize (normalize_text x)))"
      by (simp add: normalize_text_join)
    also have "\<dots> = normalize_text x"
      by (simp add: nx tokenize_filtered)
    finally show ?thesis using still by simp
  next
    case gone: False
    then have twice: "normalize_text (normalize_text x) =
        py_join [32] (filter (\<lambda>t. t \<notin> EN_STOPWORDS) (filter (\<lambda>t. t \<notin> RU_STOPWORDS) (tokenize x)))"
      by (simp add: normalize_text_join [of "normalize_text x"] toks)
    let ?A = "filter (\<lambda>t. t \<notin> EN_STOPWORDS) (filter (\<lambda>t. t \<notin> RU_STOPWORDS) (tokenize x))"
    let ?B = "filter (\<lambda>t. t \<notin> RU_STOPWORDS) (tokenize x)"
    have "normalize_text (normalize_text x) = normalize_text x \<longleftrightarrow> ?A = ?B"
    proof
      assume a: "normalize_text (normalize_text x) = normalize_text x"
      have "py_join [32] ?A = normalize_text (normalize_text x)" by (rule twice [symmetric])
      also have "\<dots> = normalize_text x" by (rule a)
      also have "\<dots> = py_join [32] ?B" by (rule nx)
      finally show "?A = ?B" by (rule py_join_filtered_inj)
    next
      assume ab: "?A = ?B"
      have "normalize_text (normalize_text x) = py_join [32] ?A" by (rule twice)
      also have "\<dots> = py_join [32] ?B" by (simp only: ab)
      also have "\<dots> = normalize_text x" by (rule nx [symmetric])
      finally show "normalize_text (normalize_text x) = normalize_text x" .
    qed
    also have "\<dots> \<longleftrightarrow> (\<forall>t\<in>set (tokenize (normalize_text x)). t \<notin> EN_STOPWORDS)"
      unfolding toks by (simp only: filter_id_conv)
    finally show ?thesis using True gone by simp
  qed
qed

lemma normalize_runs:
  "\<not> contains_cyrillic (ustr ''How to reset the password?'')"
  "normalize_text (ustr ''How to reset the password?'') = ustr ''reset password''"
  "contains_cyrillic [1080, 32, 116, 104, 101]"
  "normalize_text [1080, 32, 116, 104, 101] = ustr ''the''"
  "\<not> contains_cyrillic (ustr ''the'')"
  "tokenize (ustr ''the'') = [ustr ''the'']"
  "ustr ''the'' \<in> EN_STOPWORDS"
  by (simp_all add: text_eval)

theorem normalize_text_idempotent_witness:
  "\<not> contains_cyrillic (ustr ''How to reset the password?'')
   \<and> normalize_text (ustr ''How to reset the password?'') = ustr ''reset password''
   \<and> normalize_text (normalize_text (ustr ''How to reset the password?'')) = ustr ''reset password''
   \<and> contains_cyrillic [1080, 32, 116, 104, 101]
   \<and> \<not> contains_cyrillic (normalize_text [1080, 32, 116, 104, 101])
   \<and> tokenize (normalize_text [1080, 32, 116, 104, 101]) = [ustr ''the'']
   \<and> ustr ''the'' \<in> EN_STOPWORDS
   \<and> normalize_text (normalize_text [1080, 32, 116, 104, 101]) \<noteq> normalize_text [1080, 32, 116, 104, 101]"
proof -
  have a: "normalize_text (normalize_text (ustr ''How to reset the password?''))
             = normalize_text (ustr ''How to reset the password?'')"
    using normalize_text_idempotent_iff [of "ustr ''How to reset the password?''"] normalize_runs(1)
    by blast
  have b: "normalize_text (normalize_text [1080, 32, 116, 104, 101]) \<noteq> normalize_text [1080, 32, 116, 104, 101]"
    using normalize_text_idempotent_iff [of "[1080, 32, 116, 104, 101]"] normalize_runs(3-7)
    by simp
  from a b normalize_runs show ?thesis by simp
qed

section \<open>Properties of the argmax\<close>

lemma pyfloat_less_simps [simp]:
  "Fin a < Fin b \<longleftrightarrow> a < b" "NegInf < Fin a" "\<not> x < NegInf"
  by (cases x; auto simp: less_pyfloat_def)+

lemma pyfloat_le_NegInf [simp]: "x \<le> NegInf \<longleftrightarrow> x = NegInf"
  by (cases x) simp_all

lemma argmax_from_first_max:
  assumes "length pre = idx" "best_idx < idx" "pre ! best_idx = best_val"
    and "\<forall>j<idx. pre ! j \<le> best_val" "\<forall>j<best_idx. pre ! j < best_val"
  shows "argmax_from vs idx best_idx best_val < length (pre @ vs) \<and>
         (\<forall>j<length (pre @ vs). (pre @ vs) ! j \<le> (pre @ vs) ! argmax_from vs idx best_idx best_val) \<and>
         (\<forall>j<argmax_from vs idx best_idx best_val.
             (pre @ vs) ! j < (pre @ vs) ! argmax_from vs idx best_idx best_val)"
  using assms
proof (induction vs arbitrary: pre idx best_idx best_val)
  case Nil
  then show ?case by simp
next
  case (Cons v vs)
  show ?case
  proof (cases "v > best_val")
    case True
    have len: "length (pre @ [v]) = Suc idx" using Cons.prems by simp
    have le: "\<forall>j<Suc idx. (pre @ [v]) ! j \<le> v"
    proof (intro allI impI)
      fix j assume "j < Suc idx"
      show "(pre @ [v]) ! j \<le> v"
      proof (cases "j < idx")
        case True
        then have "pre ! j \<le> best_val" using Cons.prems by simp
        with \<open>v > best_val\<close> True Cons.prems(1) show ?thesis by (simp add: nth_append)
      next
        case False
        with \<open>j < Suc idx\<close> have "j = idx" by simp
        then show ?thesis using Cons.prems(1) by (simp add: nth_append)
      qed
    qed
    have lt: "\<forall>j<idx. (pre @ [v]) ! j < v"
    proof (intro allI impI)
      fix j assume "j < idx"
      then have "pre ! j \<le> best_val" using Cons.prems by simp
      with \<open>v > best_val\<close> \<open>j < idx\<close> Cons.prems(1) show "(pre @ [v]) ! j < v"
        by (simp add: nth_append)
    qed
    have at: "(pre @ [v]) ! idx = v" using Cons.prems(1) by (simp add: nth_append)
    from Cons.IH [OF len _ at le lt] True show ?thesis by simp
  next
    case False
    have len: "length (pre @ [v]) = Suc idx" using Cons.prems by simp
    have b: "best_idx < Suc idx" using Cons.prems by simp
    have at: "(pre @ [v]) ! best_idx = best_val" using Cons.prems by (simp add: nth_append)
    have le: "\<forall>j<Suc idx. (pre @ [v]) ! j \<le> best_val"
    proof (intro allI impI)
      fix j assume "j < Suc idx"
      show "(pre @ [v]) ! j \<le> best_val"
      proof (cases "j < idx")
        case True
        then show ?thesis using Cons.prems by (simp add: nth_append)
      next
        case False
        with \<open>j < Suc idx\<close> have "j = idx" by simp
        then show ?thesis using Cons.prems(1) \<open>\<not> v > best_val\<close> by (simp add: nth_append)
      qed
    qed
    have lt: "\<forall>j<best_idx. (pre @ [v]) ! j < best_val"
      using Cons.prems by (simp add: nth_append)
    from Cons.IH [OF len b at le lt] False show ?thesis by simp
  qed
qed

lemma argmax_index_props:
  assumes "scores \<noteq> []"
  shows "\<exists>i. argmax_index scores = Inr i \<and> i < length scores \<and>
           (\<forall>j<length scores. scores ! j \<le> scores ! i) \<and>
           (\<forall>j<i. scores ! j < scores ! i)"
proof -
  from assms obtain v vs where sc: "scores = v # vs" by (cases scores) auto
  have "argmax_from vs 1 0 v < length ([v] @ vs) \<and>
         (\<forall>j<length ([v] @ vs). ([v] @ vs) ! j \<le> ([v] @ vs) ! argmax_from vs 1 0 v) \<and>
         (\<forall>j<argmax_from vs 1 0 v. ([v] @ vs) ! j < ([v] @ vs) ! argmax_from vs 1 0 v)"
    by (rule argmax_from_first_max) simp_all
  then show ?thesis by (simp add: sc argmax_index_def)
qed

text \<open>
  Claim C4: the argmax that both \<open>get_answer_with_source\<close> (through \<open>select_answer\<close>)
  and \<open>evaluate_method\<close> (through \<open>eval_step\<close>) take over the score list returns, for
  every non-empty list, a position of the maximum such that every earlier position holds
  a strictly smaller score: among tied maximal scores the lowest index is selected.
\<close>

theorem argmax_index_first_maximum:
  assumes "scores \<noteq> []"
  shows "\<exists>i. argmax_index scores = Inr i \<and> i < length scores \<and>
           (\<forall>j<length scores. scores ! j \<le> scores ! i) \<and>
           (\<forall>j<i. scores ! j < scores ! i)"
  using assms by (rule argmax_index_props)

theorem argmax_index_first_maximum_witness:
  "[Fin 0, Fin (1/2), NegInf, Fin (1/2)] \<noteq> [] \<and>
   argmax_index [Fin 0, Fin (1/2), NegInf, Fin (1/2)] = Inr 1"
  using argmax_index_first_maximum [of "[Fin 0, Fin (1/2), NegInf, Fin (1/2)]"]
  by (simp add: argmax_index_def)


section \<open>Properties of the BM25 index and scorer\<close>

lemma map_of_counter_add:
  "map_of (counter_add t c) =
     (map_of c)(t \<mapsto> (case map_of c t of None \<Rightarrow> 1 | Some n \<Rightarrow> Suc n))"
  by (induction t c rule: counter_add.induct) (auto simp: fun_eq_iff)

lemma keys_counter_add: "fst ` set (counter_add t c) = insert t (fst ` set c)"
  by (induction t c rule: counter_add.induct) auto

lemma distinct_counter_add:
  "distinct (map fst c) \<Longrightarrow> distinct (map fst (counter_add t c))"
  by (induction t c rule: counter_add.induct) (auto simp: keys_counter_add)

lemma keys_counter_update: "fst ` set (counter_update ts c) = set ts \<union> fst ` set c"
  unfolding counter_update_def
  by (induction ts arbitrary: c) (auto simp: keys_counter_add)

lemma distinct_counter_update:
  "distinct (map fst c) \<Longrightarrow> distinct (map fst (counter_update ts c))"
  unfolding counter_update_def
  by (induction ts arbitrary: c) (auto simp: distinct_counter_add)

lemma map_of_counter_update:
  "map_of (counter_update ts c) t =
     (if t \<in> set ts
      then Some (count_list ts t + (case map_of c t of None \<Rightarrow> 0 | Some n \<Rightarrow> n))
      else map_of c t)"
  unfolding counter_update_def
proof (induction ts arbitrary: c)
  case Nil
  then show ?case by simp
next
  case (Cons a ts)
  show ?case
    by (simp add: Cons.IH map_of_counter_add split: option.split)
qed

lemma map_of_Counter:
  "map_of (Counter ts) t = (if t \<in> set ts then Some (count_list ts t) else None)"
  by (simp add: Counter_def map_of_counter_update)

lemma keys_Counter: "set (map fst (Counter ts)) = set ts"
  by (simp add: Counter_def keys_counter_update)

lemma distinct_Counter: "distinct (map fst (Counter ts))"
  by (simp add: Counter_def distinct_counter_update)

lemma count_list_distinct:
  "distinct xs \<Longrightarrow> count_list xs t = (if t \<in> set xs then 1 else 0)"
  by (induction xs) auto

lemma build_loop_eq:
  "build_loop docs (df, tfs, lens) =
     (doc_freq_of docs df, tfs @ map Counter docs, lens @ map length docs)"
  by (induction docs arbitrary: df tfs lens) (simp_all add: doc_freq_of_def Let_def)

lemma map_of_doc_freq_of:
  "map_of (doc_freq_of docs df) t =
     (if \<exists>d\<in>set docs. t \<in> set d
      then Some (length (filter (\<lambda>d. t \<in> set d) docs)
                 + (case map_of df t of None \<Rightarrow> 0 | Some n \<Rightarrow> n))
      else map_of df t)"
proof (induction docs arbitrary: df)
  case Nil
  then show ?case by (simp add: doc_freq_of_def)
next
  case (Cons d docs)
  have step: "doc_freq_of (d # docs) df = doc_freq_of docs (counter_update (map fst (Counter d)) df)"
    by (simp add: doc_freq_of_def)
  have cnt: "count_list (map fst (Counter d)) t = (if t \<in> set d then 1 else 0)"
    using count_list_distinct [OF distinct_Counter, of d t] keys_Counter [of d] by simp
  show ?case
    unfolding step Cons.IH
    using keys_Counter [of d]
    by (auto simp: map_of_counter_update cnt split: option.split)
qed

lemma distinct_doc_freq_of:
  "distinct (map fst df) \<Longrightarrow> distinct (map fst (doc_freq_of docs df))"
  unfolding doc_freq_of_def
  by (induction docs arbitrary: df) (auto simp: distinct_counter_update)

lemma doc_freq_of_entry:
  assumes "(t, n) \<in> set (doc_freq_of docs [])"
  shows "n = length (filter (\<lambda>d. t \<in> set d) docs) \<and> 0 < n \<and> n \<le> length docs"
proof -
  have "distinct (map fst (doc_freq_of docs []))" by (simp add: distinct_doc_freq_of)
  with assms have "map_of (doc_freq_of docs []) t = Some n" by simp
  then have ex: "\<exists>d\<in>set docs. t \<in> set d" and n: "n = length (filter (\<lambda>d. t \<in> set d) docs)"
    by (auto simp: map_of_doc_freq_of split: if_splits)
  from ex have "0 < n" unfolding n by (auto simp: filter_empty_conv)
  moreover have "n \<le> length docs" unfolding n by simp
  ultimately show ?thesis using n by simp
qed

lemma bm_idf_build:
  "docs \<noteq> [] \<Longrightarrow> bm_idf (build_bm25_index docs) =
     map (\<lambda>(term, freq). (term, ln (1 + (real_of_int (int (length docs) - int freq) + 0.5)
                                          / (real freq + 0.5)))) (doc_freq_of docs [])"
  by (simp add: build_bm25_index_def build_loop_eq Let_def)

lemma idf_entry_positive:
  assumes "(t, v) \<in> set (bm_idf (build_bm25_index docs))"
  shows "0 < v"
proof (cases "docs = []")
  case True
  with assms show ?thesis by (simp add: build_bm25_index_def)
next
  case False
  with assms obtain n where n: "(t, n) \<in> set (doc_freq_of docs [])"
    and v: "v = ln (1 + (real_of_int (int (length docs) - int n) + 0.5) / (real n + 0.5))"
    by (auto simp: bm_idf_build)
  from doc_freq_of_entry [OF n] have "n \<le> length docs" by simp
  then have "0 < (real_of_int (int (length docs) - int n) + 0.5) / (real n + 0.5)"
    by (intro divide_pos_pos) auto
  then show ?thesis unfolding v by (simp add: ln_gt_zero)
qed


lemma Counter_entries: "(t, n) \<in> set (Counter ts) \<Longrightarrow> n = count_list ts t \<and> t \<in> set ts"
proof -
  assume "(t, n) \<in> set (Counter ts)"
  with distinct_Counter [of ts] have "map_of (Counter ts) t = Some n" by simp
  then show ?thesis by (simp add: map_of_Counter split: if_splits)
qed

lemma Counter_as_map: "Counter ts = map (\<lambda>t. (t, count_list ts t)) (map fst (Counter ts))"
proof -
  have "map (\<lambda>p. (fst p, count_list ts (fst p))) (Counter ts) = map (\<lambda>p. p) (Counter ts)"
    by (rule map_cong) (auto dest: Counter_entries)
  then show ?thesis by (simp add: comp_def)
qed

lemma sum_list_Counter:
  "sum_list (map f (Counter ts)) = (\<Sum>t\<in>set ts. f (t, count_list ts t))"
proof -
  have "sum_list (map f (Counter ts))
      = sum_list (map (\<lambda>t. f (t, count_list ts t)) (map fst (Counter ts)))"
    by (subst Counter_as_map) (simp add: comp_def)
  also have "\<dots> = (\<Sum>t\<in>set (map fst (Counter ts)). f (t, count_list ts t))"
    using distinct_Counter [of ts] by (rule sum_list_distinct_conv_sum_set)
  finally show ?thesis by (simp only: keys_Counter)
qed

lemma bm25_doc_score_sum:
  assumes pos: "\<forall>(term, qf)\<in>set items. \<forall>tf. map_of term_freqs term = Some tf \<longrightarrow>
                  real tf + k1 * (1 - b + b * (real doc_length / avg)) \<noteq> 0"
  shows "bm25_doc_score idf k1 b avg term_freqs doc_length items score =
     Inr (score + sum_list (map (\<lambda>(term, qf).
            case map_of term_freqs term of
              None \<Rightarrow> 0
            | Some tf \<Rightarrow>
                (case map_of idf term of None \<Rightarrow> 0 | Some v \<Rightarrow> v)
                * (real tf * (k1 + 1) / (real tf + k1 * (1 - b + b * (real doc_length / avg))))
                * real qf) items))"
  using pos
proof (induction items arbitrary: score)
  case Nil
  then show ?case by simp
next
  case (Cons it items)
  obtain trm qf where it: "it = (trm, qf)" by (cases it)
  show ?case
  proof (cases "map_of term_freqs trm")
    case None
    with Cons it show ?thesis by simp
  next
    case (Some tf)
    with Cons.prems it
    have nz: "real tf + k1 * (1 - b + b * (real doc_length / avg)) \<noteq> 0" by auto
    from Cons.prems have "\<forall>(term, qf)\<in>set items. \<forall>tf. map_of term_freqs term = Some tf \<longrightarrow>
                  real tf + k1 * (1 - b + b * (real doc_length / avg)) \<noteq> 0" by simp
    from Cons.IH [OF this] Some nz it show ?thesis by (simp add: Let_def add.assoc)
  qed
qed

lemma score_bm25_loop_docs:
  assumes "\<forall>d\<in>set ds. bm25_doc_score idf k1 b avg (Counter d) (length d) query_terms 0 = Inr (g d)"
  shows "score_bm25_loop idf k1 b avg query_terms (zip (map Counter ds) (map length ds)) scores
           = Inr (scores @ map g ds)"
  using assms
proof (induction ds arbitrary: scores)
  case Nil
  then show ?case by simp
next
  case (Cons d ds)
  then show ?case using Cons.IH [of "scores @ [g d]"] by simp
qed

lemma build_fields:
  assumes "docs \<noteq> []"
  shows "bm_doc_term_freqs (build_bm25_index docs) = map Counter docs"
    and "bm_doc_lengths (build_bm25_index docs) = map length docs"
    and "bm_avg_doc_length (build_bm25_index docs) = spec_avg_doc_len docs"
    and "bm_k1 (build_bm25_index docs) = 1.5"
    and "bm_b (build_bm25_index docs) = 0.75"
  using assms by (simp_all add: build_bm25_index_def build_loop_eq Let_def spec_avg_doc_len_def)

lemma idf_lookup:
  assumes "docs \<noteq> []" "d \<in> set docs" "t \<in> set d"
  shows "map_of (bm_idf (build_bm25_index docs)) t = Some (spec_idf docs t)"
proof -
  have "map_of (doc_freq_of docs []) t = Some (spec_df docs t)"
    using assms by (auto simp: map_of_doc_freq_of spec_df_def)
  moreover have "spec_df docs t \<le> length docs" by (simp add: spec_df_def)
  ultimately show ?thesis
    using assms(1) by (simp add: bm_idf_build map_of_map spec_idf_def of_nat_diff)
qed

lemma avg_zero_all_empty:
  assumes "docs \<noteq> []" "spec_avg_doc_len docs = 0" "d \<in> set docs"
  shows "d = []"
proof -
  from assms have "sum_list (map length docs) = 0" by (simp add: spec_avg_doc_len_def)
  with assms(3) show ?thesis by auto
qed

text \<open>
  Claim C1: on the index built from a non-empty list of tokenized documents, and for a
  non-empty query, \<open>score_bm25\<close> returns (raising nothing) one score per document, and
  the score of a document is the sum, over the distinct query terms that occur in it, of
  \<open>idf(t) * (tf * (k1 + 1)) / (tf + k1 * (1 - b + b * (docLen / avgDocLen))) * (count of
  t in the query)\<close> with \<open>k1 = 1.5\<close>, \<open>b = 0.75\<close> and \<open>idf(t) = ln (1 + (N - df(t) +
  0.5) / (df(t) + 0.5))\<close>. A query term absent from the document is not in the sum.
  Floats are read as exact reals.
\<close>

theorem score_bm25_formula:
  assumes docs: "docs \<noteq> []" and q: "q \<noteq> []"
  shows "score_bm25 q (build_bm25_index docs) = Inr (map (spec_bm25_score docs q) docs)"
proof (cases "spec_avg_doc_len docs = 0")
  case True
  have "map (spec_bm25_score docs q) docs = map (\<lambda>_. 0) docs"
  proof (rule map_cong [OF refl])
    fix d assume "d \<in> set docs"
    with avg_zero_all_empty [OF docs True] have "d = []" by simp
    then show "spec_bm25_score docs q d = 0" by (simp add: spec_bm25_score_def)
  qed
  with True q docs show ?thesis by (simp add: score_bm25_def build_fields)
next
  case False
  let ?ix = "build_bm25_index docs"
  let ?avg = "spec_avg_doc_len docs"
  have avg_pos: "0 < ?avg"
  proof -
    have "0 \<le> ?avg" by (simp add: spec_avg_doc_len_def)
    with False show ?thesis by simp
  qed
  have den_pos: "0 < real tf + 1.5 * (1 - 0.75 + 0.75 * (real dl / ?avg))" for tf dl :: nat
  proof -
    have "0 \<le> real dl / ?avg" using avg_pos by simp
    then have "0 < 1.5 * (1 - 0.75 + 0.75 * (real dl / ?avg))" by simp
    then show ?thesis by (simp add: add_nonneg_pos)
  qed
  have row: "bm25_doc_score (bm_idf ?ix) 1.5 0.75 ?avg (Counter d) (length d) (Counter q) 0
               = Inr (spec_bm25_score docs q d)" if d: "d \<in> set docs" for d
  proof -
    let ?c = "\<lambda>(term, qf). case map_of (Counter d) term of
              None \<Rightarrow> 0
            | Some tf \<Rightarrow>
                (case map_of (bm_idf ?ix) term of None \<Rightarrow> 0 | Some v \<Rightarrow> v)
                * (real tf * (1.5 + 1) / (real tf + 1.5 * (1 - 0.75 + 0.75 * (real (length d) / ?avg))))
                * real qf"
    have "bm25_doc_score (bm_idf ?ix) 1.5 0.75 ?avg (Counter d) (length d) (Counter q) 0
            = Inr (0 + sum_list (map ?c (Counter q)))"
      by (rule bm25_doc_score_sum) (use den_pos in \<open>auto simp: less_imp_neq [THEN not_sym]\<close>)
    also have "sum_list (map ?c (Counter q)) = (\<Sum>t\<in>set q. ?c (t, count_list q t))"
      by (rule sum_list_Counter)
    also have "\<dots> = (\<Sum>t\<in>set q \<inter> set d. ?c (t, count_list q t))"
      by (rule sum.mono_neutral_right) (auto simp: map_of_Counter)
    also have "\<dots> = spec_bm25_score docs q d"
      unfolding spec_bm25_score_def
      by (rule sum.cong) (auto simp: map_of_Counter idf_lookup [OF docs d])
    finally show ?thesis by simp
  qed
  have "score_bm25 q ?ix =
          score_bm25_loop (bm_idf ?ix) 1.5 0.75 ?avg (Counter q)
            (zip (map Counter docs) (map length docs)) []"
    using False q docs by (simp add: score_bm25_def build_fields)
  also have "\<dots> = Inr ([] @ map (spec_bm25_score docs q) docs)"
    by (rule score_bm25_loop_docs) (use row in blast)
  finally show ?thesis by simp
qed

lemmas bm25_spec_eval = spec_bm25_score_def spec_idf_def spec_df_def spec_avg_doc_len_def

lemmas bm25_build_eval = build_bm25_index_def Counter_def counter_update_def Let_def ustr_def

theorem score_bm25_formula_witness:
  "[[ustr ''reset'', ustr ''password''], [ustr ''weather'']] \<noteq> [] \<and> [ustr ''reset''] \<noteq> [] \<and>
   score_bm25 [ustr ''reset''] (build_bm25_index [[ustr ''reset'', ustr ''password''], [ustr ''weather'']])
     = Inr [ln 2 * (20 / 23), 0]"
  using score_bm25_formula [of "[[ustr ''reset'', ustr ''password''], [ustr ''weather'']]" "[ustr ''reset'']"]
  by (simp add: bm25_spec_eval ustr_def)

text \<open>
  Claim C3, as stated, fails: no list of tokenized documents gives any term a negative
  idf. The document frequency of a term never exceeds the number of documents, so the
  argument of the logarithm, \<open>1 + (N - df + 0.5) / (df + 0.5)\<close>, exceeds 1.
\<close>

theorem idf_never_negative:
  "\<not> (\<exists>docs t v. (t, v) \<in> set (bm_idf (build_bm25_index docs)) \<and> v < 0)"
  using idf_entry_positive by force

text \<open>
  Claim C3, amended: every idf value that \<open>build_bm25_index\<close> assigns is the value of
  \<open>ln (1 + (N - df + 0.5) / (df + 0.5))\<close> at a document frequency \<open>1 \<le> df \<le> N\<close>, and
  is strictly positive, also for a term that occurs in every document.
\<close>

theorem idf_strictly_positive:
  assumes "(t, v) \<in> set (bm_idf (build_bm25_index docs))"
  shows "v = ln (1 + (real (length docs) - real (spec_df docs t) + 0.5) / (real (spec_df docs t) + 0.5))
         \<and> 0 < spec_df docs t \<and> spec_df docs t \<le> length docs \<and> 0 < v"
proof -
  have ne: "docs \<noteq> []" using assms by (auto simp: build_bm25_index_def)
  with assms obtain n where n: "(t, n) \<in> set (doc_freq_of docs [])"
    and v: "v = ln (1 + (real_of_int (int (length docs) - int n) + 0.5) / (real n + 0.5))"
    by (auto simp: bm_idf_build)
  from doc_freq_of_entry [OF n] have "n = spec_df docs t" "0 < n" "n \<le> length docs"
    unfolding spec_df_def by blast+
  with v idf_entry_positive [OF assms] show ?thesis by (simp add: of_nat_diff)
qed

theorem idf_strictly_positive_witness:
  "(ustr ''the'', ln (8/7)) \<in> set (bm_idf (build_bm25_index
       [[ustr ''the'', ustr ''cat''], [ustr ''the'', ustr ''dog''], [ustr ''the'']]))
   \<and> spec_df [[ustr ''the'', ustr ''cat''], [ustr ''the'', ustr ''dog''], [ustr ''the'']] (ustr ''the'') = 3
   \<and> (0::real) < ln (8/7)"
  using idf_strictly_positive [of "ustr ''the''" "ln (8/7)"
      "[[ustr ''the'', ustr ''cat''], [ustr ''the'', ustr ''dog''], [ustr ''the'']]"]
  by (simp add: bm25_build_eval spec_df_def)

section \<open>Properties of the Boolean scorer\<close>

lemma score_boolean_loop_map:
  "score_boolean_loop qs docs scores =
     scores @ map (\<lambda>d. real (card (qs \<inter> set d)) / real (card qs)) docs"
  by (induction docs arbitrary: scores) (simp_all add: Let_def)

lemma overlap_ratio_bounds:
  "0 \<le> real (card (set q \<inter> set d)) / real (card (set q)) \<and>
   real (card (set q \<inter> set d)) / real (card (set q)) \<le> 1"
proof (cases "q = []")
  case True
  then show ?thesis by simp
next
  case False
  then have "0 < card (set q)" by (simp add: card_gt_0_iff)
  moreover have "card (set q \<inter> set d) \<le> card (set q)" by (simp add: card_mono)
  ultimately show ?thesis by simp
qed

text \<open>
  Claim C7: \<open>score_boolean\<close> returns one score per document; for a non-empty query the
  score of a document is the number of distinct query terms that occur in the document
  divided by the number of distinct query terms, for an empty query it is 0; every score
  lies between 0 and 1.
\<close>

theorem score_boolean_overlap_ratio:
  "length (score_boolean query_tokens doc_tokens) = length doc_tokens \<and>
   (\<forall>i<length doc_tokens.
      score_boolean query_tokens doc_tokens ! i =
        (if query_tokens = [] then 0
         else real (card (set query_tokens \<inter> set (doc_tokens ! i))) / real (card (set query_tokens)))
      \<and> 0 \<le> score_boolean query_tokens doc_tokens ! i
      \<and> score_boolean query_tokens doc_tokens ! i \<le> 1)"
proof (cases "query_tokens = []")
  case True
  then show ?thesis by (simp add: score_boolean_def)
next
  case False
  then have eq: "score_boolean query_tokens doc_tokens =
      map (\<lambda>d. real (card (set query_tokens \<inter> set d)) / real (card (set query_tokens))) doc_tokens"
    by (simp add: score_boolean_def score_boolean_loop_map)
  show ?thesis
    unfolding eq using False overlap_ratio_bounds [of query_tokens] by simp
qed

theorem score_boolean_overlap_ratio_witness:
  "(1::nat) < length [[ustr ''reset'', ustr ''my'', ustr ''password''], [ustr ''reset'', ustr ''router'']]
   \<and> score_boolean [ustr ''reset'', ustr ''password'', ustr ''reset'']
        [[ustr ''reset'', ustr ''my'', ustr ''password''], [ustr ''reset'', ustr ''router'']] ! 1 = 1 / 2
   \<and> score_boolean [ustr ''reset'', ustr ''password'', ustr ''reset'']
        [[ustr ''reset'', ustr ''my'', ustr ''password''], [ustr ''reset'', ustr ''router'']] ! 0 = 1"
  using score_boolean_overlap_ratio [of "[ustr ''reset'', ustr ''password'', ustr ''reset'']"
          "[[ustr ''reset'', ustr ''my'', ustr ''password''], [ustr ''reset'', ustr ''router'']]",
          THEN conjunct2, THEN spec, of 1]
        score_boolean_overlap_ratio [of "[ustr ''reset'', ustr ''password'', ustr ''reset'']"
          "[[ustr ''reset'', ustr ''my'', ustr ''password''], [ustr ''reset'', ustr ''router'']]",
          THEN conjunct2, THEN spec, of 0]
  by (simp add: ustr_def card_insert_if)

section \<open>Properties of the scorer and of corpus preparation\<close>

lemma length_score_boolean: "length (score_boolean q docs) = length docs"
  by (simp add: score_boolean_def score_boolean_loop_map)

lemma length_cosine_similarity: "length (cosine_similarity v m) = length m"
  by (simp add: cosine_similarity_def)

lemma length_score_bm25_loop:
  "score_bm25_loop idf k1 b avg qt rows scores = Inr out \<Longrightarrow>
     length out = length scores + length rows"
proof (induction rows arbitrary: scores)
  case Nil
  then show ?case by simp
next
  case (Cons r rows)
  obtain tfs dl where r: "r = (tfs, dl)" by (cases r)
  from Cons.prems r obtain v where
    "score_bm25_loop idf k1 b avg qt rows (scores @ [v]) = Inr out"
    by (auto split: sum.splits)
  from Cons.IH [OF this] show ?case by simp
qed

lemma length_score_bm25:
  assumes "score_bm25 q ix = Inr out"
    and "length (bm_doc_term_freqs ix) = n" "length (bm_doc_lengths ix) = n"
  shows "length out = n"
  using assms length_score_bm25_loop [of "bm_idf ix" "bm_k1 ix" "bm_b ix" "bm_avg_doc_length ix"
      "Counter q" "zip (bm_doc_term_freqs ix) (bm_doc_lengths ix)" "[]" out]
  by (auto simp: score_bm25_def split: if_splits)

lemma compute_scores_length:
  assumes "one_entry_per_example p n" "compute_scores q p = Inr scores"
  shows "length scores = n"
proof -
  consider (vec) "payload_method p = ustr ''tfidf'' \<or> payload_method p = ustr ''bow''"
    | (bm) "\<not> (payload_method p = ustr ''tfidf'' \<or> payload_method p = ustr ''bow'')"
           "payload_method p = ustr ''bm25''"
    | (bool) "\<not> (payload_method p = ustr ''tfidf'' \<or> payload_method p = ustr ''bow'')"
           "payload_method p \<noteq> ustr ''bm25''"
    by blast
  then show ?thesis
  proof cases
    case vec
    with assms show ?thesis
      by (auto simp: one_entry_per_example_def compute_scores_def payload_method_def [symmetric]
            length_cosine_similarity split: option.splits)
  next
    case bm
    with assms obtain ix out where ix: "p_bm25_index p = Some ix"
        "length (bm_doc_term_freqs ix) = n" "length (bm_doc_lengths ix) = n"
        and out: "score_bm25 (py_split q) ix = Inr out" "scores = map Fin out"
      by (auto simp: one_entry_per_example_def compute_scores_def payload_method_def [symmetric]
            Let_def split: option.splits sum.splits)
    from length_score_bm25 [OF out(1) ix(2,3)] out(2) show ?thesis by simp
  next
    case bool
    with assms show ?thesis
      by (auto simp: one_entry_per_example_def compute_scores_def payload_method_def [symmetric]
            Let_def length_score_boolean split: option.splits)
  qed
qed


lemma bm25_doc_score_total:
  assumes "bm25_well_formed ix" "bm_avg_doc_length ix \<noteq> 0"
  shows "\<exists>v. bm25_doc_score (bm_idf ix) (bm_k1 ix) (bm_b ix) (bm_avg_doc_length ix) tfs dl items 0 = Inr v"
proof -
  have avg: "0 < bm_avg_doc_length ix" and k1: "0 < bm_k1 ix" and b: "0 \<le> bm_b ix" "bm_b ix < 1"
    using assms by (simp_all add: bm25_well_formed_def)
  have "0 < real tf + bm_k1 ix * (1 - bm_b ix + bm_b ix * (real dl / bm_avg_doc_length ix))" for tf :: nat
  proof -
    have "0 \<le> bm_b ix * (real dl / bm_avg_doc_length ix)" using b avg by simp
    with b have "0 < 1 - bm_b ix + bm_b ix * (real dl / bm_avg_doc_length ix)" by simp
    with k1 have "0 < bm_k1 ix * (1 - bm_b ix + bm_b ix * (real dl / bm_avg_doc_length ix))"
      by simp
    then show ?thesis by (simp add: add_nonneg_pos)
  qed
  then have "\<forall>(trm, qf)\<in>set items. \<forall>tf. map_of tfs trm = Some tf \<longrightarrow>
      real tf + bm_k1 ix * (1 - bm_b ix + bm_b ix * (real dl / bm_avg_doc_length ix)) \<noteq> 0"
    by (auto simp: less_imp_neq [THEN not_sym])
  from bm25_doc_score_sum [OF this] show ?thesis by blast
qed

lemma score_bm25_loop_total:
  assumes "\<forall>(tfs, dl)\<in>set rows. \<exists>v. bm25_doc_score idf k1 b avg tfs dl qt 0 = Inr v"
  shows "\<exists>out. score_bm25_loop idf k1 b avg qt rows scores = Inr out"
  using assms
proof (induction rows arbitrary: scores)
  case Nil
  then show ?case by simp
next
  case (Cons r rows)
  obtain tfs dl where r: "r = (tfs, dl)" by (cases r)
  with Cons.prems obtain v where v: "bm25_doc_score idf k1 b avg tfs dl qt 0 = Inr v" by auto
  from Cons.prems have "\<forall>(tfs, dl)\<in>set rows. \<exists>v. bm25_doc_score idf k1 b avg tfs dl qt 0 = Inr v"
    by simp
  from Cons.IH [OF this, of "scores @ [v]"] v r show ?case by simp
qed

lemma score_bm25_total:
  assumes "bm25_well_formed ix"
  shows "\<exists>out. score_bm25 q ix = Inr out"
proof (cases "q = [] \<or> bm_avg_doc_length ix = 0")
  case True
  then show ?thesis by (auto simp: score_bm25_def)
next
  case False
  then have nz: "bm_avg_doc_length ix \<noteq> 0" by simp
  have "\<exists>out. score_bm25_loop (bm_idf ix) (bm_k1 ix) (bm_b ix) (bm_avg_doc_length ix) (Counter q)
           (zip (bm_doc_term_freqs ix) (bm_doc_lengths ix)) [] = Inr out"
    by (rule score_bm25_loop_total) (use bm25_doc_score_total [OF assms nz] in auto)
  with False show ?thesis by (simp add: score_bm25_def)
qed

lemma compute_scores_total:
  assumes "one_entry_per_example p n"
    and "\<forall>ix. p_bm25_index p = Some ix \<longrightarrow> bm25_well_formed ix"
  shows "\<exists>scores. compute_scores q p = Inr scores"
proof -
  consider (vec) "payload_method p = ustr ''tfidf'' \<or> payload_method p = ustr ''bow''"
    | (bm) "\<not> (payload_method p = ustr ''tfidf'' \<or> payload_method p = ustr ''bow'')"
           "payload_method p = ustr ''bm25''"
    | (bool) "\<not> (payload_method p = ustr ''tfidf'' \<or> payload_method p = ustr ''bow'')"
           "payload_method p \<noteq> ustr ''bm25''"
    by blast
  then show ?thesis
  proof cases
    case vec
    with assms(1) show ?thesis
      by (auto simp: one_entry_per_example_def compute_scores_def payload_method_def [symmetric]
            split: option.splits)
  next
    case bm
    with assms(1) obtain ix where ix: "p_bm25_index p = Some ix"
      by (auto simp: one_entry_per_example_def split: option.splits)
    with assms(2) have "bm25_well_formed ix" by simp
    from score_bm25_total [OF this, of "py_split q"] obtain out where
      "score_bm25 (py_split q) ix = Inr out" by blast
    with bm ix show ?thesis
      by (simp add: compute_scores_def payload_method_def [symmetric] Let_def)
  next
    case bool
    with assms(1) show ?thesis
      by (auto simp: one_entry_per_example_def compute_scores_def payload_method_def [symmetric]
            Let_def split: option.splits)
  qed
qed

lemma build_bm25_index_well_formed: "bm25_well_formed (build_bm25_index docs)"
proof (cases "docs = []")
  case True
  then show ?thesis by (simp add: bm25_well_formed_def build_bm25_index_def)
next
  case False
  then show ?thesis by (simp add: bm25_well_formed_def build_fields spec_avg_doc_len_def)
qed

lemma patterns_loop_eq:
  "patterns_loop tag responses ps (corpus, examples) =
     (corpus @ map normalize_text (filter keeps ps),
      examples @ map (\<lambda>pattern. \<lparr>ex_tag = Some tag, ex_pattern = Some pattern,
                            ex_responses = Some responses, ex_source_url = None\<rparr>) (filter keeps ps))"
  by (induction ps arbitrary: corpus examples) (simp_all add: keeps_def Let_def)

lemma intents_loop_aligned:
  assumes "intents_loop is (corpus, examples) = Inr (corpus', examples')"
  shows "corpus' = corpus @ map normalize_text (filter keeps (concat (map patterns_of is))) \<and>
         map ex_pattern examples' =
           map ex_pattern examples @ map Some (filter keeps (concat (map patterns_of is)))"
  using assms
proof (induction "is" arbitrary: corpus examples)
  case Nil
  then show ?case by simp
next
  case (Cons i "is")
  from Cons.prems obtain tag where tag: "in_tag i = Some tag" by (auto split: option.splits)
  let ?rs = "case in_responses i of None \<Rightarrow> [] | Some r \<Rightarrow> r"
  from Cons.prems tag have
    "intents_loop is (patterns_loop tag ?rs (patterns_of i) (corpus, examples)) = Inr (corpus', examples')"
    by (simp add: patterns_of_def Let_def)
  then show ?case
    unfolding patterns_loop_eq by (auto dest!: Cons.IH simp: comp_def)
qed

lemma prepare_corpus_aligned:
  assumes "prepare_corpus d = Inr (corpus, examples)"
  shows "corpus = map normalize_text (filter keeps (all_patterns d)) \<and>
         map ex_pattern examples = map Some (filter keeps (all_patterns d)) \<and>
         length corpus = length examples"
proof -
  from assms have "intents_loop (case d of None \<Rightarrow> [] | Some is \<Rightarrow> is) ([], []) = Inr (corpus, examples)"
    by (simp add: prepare_corpus_def)
  from intents_loop_aligned [OF this]
  have c: "corpus = map normalize_text (filter keeps (all_patterns d))"
    and e: "map ex_pattern examples = map Some (filter keeps (all_patterns d))"
    by (simp_all add: all_patterns_def)
  from e have "length examples = length (filter keeps (all_patterns d))"
    by (metis length_map)
  with c e show ?thesis by simp
qed

section \<open>Properties of the matcher and the evaluator\<close>

lemma max_from_NegInf:
  "max_from vs best = NegInf \<longleftrightarrow> best = NegInf \<and> (\<forall>v\<in>set vs. v = NegInf)"
proof (induction vs arbitrary: best)
  case Nil
  then show ?case by simp
next
  case (Cons v vs)
  show ?case
  proof (cases "v > best")
    case True
    then have "v \<noteq> NegInf" by auto
    with True Cons.IH [of v] show ?thesis by auto
  next
    case False
    then have "best = NegInf \<Longrightarrow> v = NegInf" by (cases v) auto
    with False Cons.IH [of best] show ?thesis by auto
  qed
qed

lemma py_max_NegInf:
  "py_max scores = Inr NegInf \<longleftrightarrow> scores \<noteq> [] \<and> (\<forall>v\<in>set scores. v = NegInf)"
  by (cases scores) (auto simp: py_max_def max_from_NegInf)

lemma not_less_Fin_not_NegInf: "\<not> s < Fin th \<Longrightarrow> s \<noteq> NegInf"
  by auto

lemma mask_topic_spec:
  "mask_topic lower tf es idx scores = Inr out \<Longrightarrow>
     length out = length scores \<and>
     (\<forall>j<length out. out ! j =
        (if idx \<le> j \<and> j < idx + length es \<and>
            normalized_topic lower (tag_or_general (es ! (j - idx))) \<noteq> tf
         then NegInf else scores ! j))"
proof (induction es arbitrary: idx scores)
  case Nil
  then show ?case by auto
next
  case (Cons e es)
  show ?case
  proof (cases "normalized_topic lower (tag_or_general e) \<noteq> tf")
    case True
    with Cons.prems have idx: "idx < length scores"
      and rec: "mask_topic lower tf es (Suc idx) (scores[idx := NegInf]) = Inr out"
      by (auto split: if_splits)
    from Cons.IH [OF rec] have len: "length out = length scores"
      and ih: "\<forall>j<length out. out ! j =
        (if Suc idx \<le> j \<and> j < Suc idx + length es \<and>
            normalized_topic lower (tag_or_general (es ! (j - Suc idx))) \<noteq> tf
         then NegInf else (scores[idx := NegInf]) ! j)"
      by simp_all
    have "out ! j =
        (if idx \<le> j \<and> j < idx + length (e # es) \<and>
            normalized_topic lower (tag_or_general ((e # es) ! (j - idx))) \<noteq> tf
         then NegInf else scores ! j)" if j: "j < length out" for j
    proof (cases "j = idx")
      case True
      with ih j idx \<open>normalized_topic lower (tag_or_general e) \<noteq> tf\<close> show ?thesis by simp
    next
      case False
      then have "(e # es) ! (j - idx) = es ! (j - Suc idx)" if "idx \<le> j"
        using that by (simp add: nth_Cons')
      with ih j False show ?thesis by (auto simp: nth_list_update)
    qed
    with len show ?thesis by simp
  next
    case False
    with Cons.prems have rec: "mask_topic lower tf es (Suc idx) scores = Inr out" by simp
    from Cons.IH [OF rec] have len: "length out = length scores"
      and ih: "\<forall>j<length out. out ! j =
        (if Suc idx \<le> j \<and> j < Suc idx + length es \<and>
            normalized_topic lower (tag_or_general (es ! (j - Suc idx))) \<noteq> tf
         then NegInf else scores ! j)"
      by simp_all
    have "out ! j =
        (if idx \<le> j \<and> j < idx + length (e # es) \<and>
            normalized_topic lower (tag_or_general ((e # es) ! (j - idx))) \<noteq> tf
         then NegInf else scores ! j)" if j: "j < length out" for j
    proof (cases "j = idx")
      case True
      with ih j False show ?thesis by simp
    next
      case neq: False
      then have "(e # es) ! (j - idx) = es ! (j - Suc idx)" if "idx \<le> j"
        using that by (simp add: nth_Cons')
      with ih j neq show ?thesis by auto
    qed
    with len show ?thesis by simp
  qed
qed

lemma select_answer_cases:
  assumes "select_answer rnd exs th scores = Inr (a, s, u)"
  shows "(a = FALLBACK_MESSAGE \<and> u = [] \<and> (s = Fin 0 \<or> s < Fin th)) \<or>
         (\<exists>i rs. argmax_index scores = Inr i \<and> i < length exs \<and> s = scores ! i \<and>
            \<not> scores ! i < Fin th \<and> ex_responses (exs ! i) = Some rs \<and>
            a = (if rs \<noteq> [] then random_choice rnd rs else FALLBACK_MESSAGE) \<and>
            u = (case ex_source_url (exs ! i) of None \<Rightarrow> [] | Some v \<Rightarrow> v))"
  using assms
  by (auto simp: select_answer_def Let_def split: if_splits sum.splits option.splits)


lemma compute_scores_threshold_update [simp]:
  "compute_scores q (p\<lparr>p_threshold := t\<rparr>) = compute_scores q p"
  by (simp add: compute_scores_def Let_def cong: option.case_cong sum.case_cong)

lemma eval_step_threshold_update [simp]:
  "eval_step (p\<lparr>p_threshold := t\<rparr>) exs th i ex st = eval_step p exs th i ex st"
  unfolding eval_step_def compute_scores_threshold_update ..

lemma eval_loop_threshold_update [simp]:
  "eval_loop (p\<lparr>p_threshold := t\<rparr>) exs th i rest st = eval_loop p exs th i rest st"
  by (induction rest arbitrary: i st) (simp_all split: sum.split)

text \<open>
  Claim C8: when \<open>get_answer_with_source\<close> reaches its argmax (the query normalizes to
  a non-empty text, the masked score list is not empty and its maximum is not
  \<open>-infinity\<close>) and the best score is strictly below the threshold, it returns the fixed
  fallback message, the best score itself, which is a finite score and not a substituted
  0.0, and an empty source.
\<close>

theorem fallback_carries_best_score:
  assumes "normalize_text user_text \<noteq> []"
    and "p_examples p = Some examples"
    and "compute_scores (normalize_text user_text) p = Inr scores0"
    and "(if topic_filter \<noteq> ustr ''all'' then mask_topic lower topic_filter examples 0 scores0
          else Inr scores0) = Inr scores"
    and "scores \<noteq> []" and "py_max scores \<noteq> Inr NegInf"
    and "argmax_index scores = Inr best_idx"
    and "scores ! best_idx < Fin (payload_threshold p)"
  shows "get_answer_with_source lower rnd user_text p topic_filter
           = Inr (FALLBACK_MESSAGE, scores ! best_idx, [])
         \<and> scores ! best_idx \<noteq> NegInf"
proof -
  from assms(5) obtain i where i: "argmax_index scores = Inr i"
      "\<forall>j<length scores. scores ! j \<le> scores ! i"
    using argmax_index_props [of scores] by blast
  with assms(7) have best: "\<forall>j<length scores. scores ! j \<le> scores ! best_idx" by simp
  have "scores ! best_idx \<noteq> NegInf"
  proof
    assume "scores ! best_idx = NegInf"
    with best have "\<forall>j<length scores. scores ! j = NegInf" by simp
    then have "\<forall>v\<in>set scores. v = NegInf" by (auto simp: in_set_conv_nth)
    with assms(5,6) show False by (simp add: py_max_NegInf)
  qed
  moreover have "get_answer_with_source lower rnd user_text p topic_filter
           = Inr (FALLBACK_MESSAGE, scores ! best_idx, [])"
    using assms by (simp add: get_answer_with_source_def select_answer_def Let_def)
  ultimately show ?thesis by simp
qed

text \<open>
  Claim C6: with a topic filter other than \<open>all\<close>, whatever \<open>get_answer_with_source\<close>
  returns is either a fallback triple (the fallback message, an empty source, and the
  score 0 or a best score below the threshold), or the answer, score and source of the
  matched example, the argmax of the masked scores, whose normalized topic equals the
  filter and whose score was not masked. The filter is applied to the computed scores:
  the masked list has the length of the score list, holds \<open>-infinity\<close> at the positions
  of the examples of another topic and the computed score elsewhere; a list that holds
  \<open>-infinity\<close> everywhere gives the fallback triple. This holds for every lowercasing
  function \<open>lower\<close>, so for the interpreter's.
\<close>

theorem topic_filter_sound:
  "(topic_filter \<noteq> ustr ''all'' \<and>
      get_answer_with_source lower rnd user_text p topic_filter = Inr (answer, score, source_url) \<longrightarrow>
        (answer = FALLBACK_MESSAGE \<and> source_url = [] \<and>
           (score = Fin 0 \<or> score < Fin (payload_threshold p))) \<or>
        (\<exists>examples scores0 scores i responses.
           p_examples p = Some examples \<and>
           compute_scores (normalize_text user_text) p = Inr scores0 \<and>
           mask_topic lower topic_filter examples 0 scores0 = Inr scores \<and>
           argmax_index scores = Inr i \<and> i < length examples \<and> i < length scores \<and>
           score = scores ! i \<and> scores ! i = scores0 ! i \<and>
           \<not> score < Fin (payload_threshold p) \<and>
           normalized_topic lower (tag_or_general (examples ! i)) = topic_filter \<and>
           ex_responses (examples ! i) = Some responses \<and>
           answer = (if responses \<noteq> [] then random_choice rnd responses else FALLBACK_MESSAGE) \<and>
           source_url = (case ex_source_url (examples ! i) of None \<Rightarrow> [] | Some u \<Rightarrow> u)))
   \<and> (mask_topic lower topic_filter examples 0 scores0 = Inr scores \<longrightarrow>
        length scores = length scores0 \<and>
        (\<forall>j<length scores. scores ! j =
           (if j < length examples \<and>
               normalized_topic lower (tag_or_general (examples ! j)) \<noteq> topic_filter
            then NegInf else scores0 ! j)))
   \<and> (scores \<noteq> [] \<and> (\<forall>j<length scores. scores ! j = NegInf) \<longrightarrow>
        select_answer rnd examples threshold scores = Inr (FALLBACK_MESSAGE, Fin 0, []))"
proof (intro conjI impI)
  assume h: "topic_filter \<noteq> ustr ''all'' \<and>
      get_answer_with_source lower rnd user_text p topic_filter = Inr (answer, score, source_url)"
  show "(answer = FALLBACK_MESSAGE \<and> source_url = [] \<and>
           (score = Fin 0 \<or> score < Fin (payload_threshold p))) \<or>
        (\<exists>examples scores0 scores i responses.
           p_examples p = Some examples \<and>
           compute_scores (normalize_text user_text) p = Inr scores0 \<and>
           mask_topic lower topic_filter examples 0 scores0 = Inr scores \<and>
           argmax_index scores = Inr i \<and> i < length examples \<and> i < length scores \<and>
           score = scores ! i \<and> scores ! i = scores0 ! i \<and>
           \<not> score < Fin (payload_threshold p) \<and>
           normalized_topic lower (tag_or_general (examples ! i)) = topic_filter \<and>
           ex_responses (examples ! i) = Some responses \<and>
           answer = (if responses \<noteq> [] then random_choice rnd responses else FALLBACK_MESSAGE) \<and>
           source_url = (case ex_source_url (examples ! i) of None \<Rightarrow> [] | Some u \<Rightarrow> u))"
  proof (cases "normalize_text user_text = []")
    case True
    with h show ?thesis by (simp add: get_answer_with_source_def)
  next
    case False
    with h obtain exs s0 sc where exs: "p_examples p = Some exs"
      and s0: "compute_scores (normalize_text user_text) p = Inr s0"
      and sc: "mask_topic lower topic_filter exs 0 s0 = Inr sc"
      and sel: "select_answer rnd exs (payload_threshold p) sc = Inr (answer, score, source_url)"
      by (auto simp: get_answer_with_source_def Let_def split: option.splits sum.splits)
    from select_answer_cases [OF sel] show ?thesis
    proof
      assume "answer = FALLBACK_MESSAGE \<and> source_url = [] \<and>
                (score = Fin 0 \<or> score < Fin (payload_threshold p))"
      then show ?thesis by blast
    next
      assume "\<exists>i rs. argmax_index sc = Inr i \<and> i < length exs \<and> score = sc ! i \<and>
            \<not> sc ! i < Fin (payload_threshold p) \<and> ex_responses (exs ! i) = Some rs \<and>
            answer = (if rs \<noteq> [] then random_choice rnd rs else FALLBACK_MESSAGE) \<and>
            source_url = (case ex_source_url (exs ! i) of None \<Rightarrow> [] | Some v \<Rightarrow> v)"
      then obtain i rs where i: "argmax_index sc = Inr i" "i < length exs"
        and sci: "score = sc ! i"
        and hi: "\<not> sc ! i < Fin (payload_threshold p)"
        and rs: "ex_responses (exs ! i) = Some rs"
          "answer = (if rs \<noteq> [] then random_choice rnd rs else FALLBACK_MESSAGE)"
          "source_url = (case ex_source_url (exs ! i) of None \<Rightarrow> [] | Some v \<Rightarrow> v)"
        by blast
      have ne: "sc \<noteq> []" using i(1) by (auto simp: argmax_index_def)
      from argmax_index_props [OF ne] i(1) have ilen: "i < length sc" by auto
      from hi have nn: "sc ! i \<noteq> NegInf" by (rule not_less_Fin_not_NegInf)
      from mask_topic_spec [OF sc] ilen i(2) nn
      have tp: "normalized_topic lower (tag_or_general (exs ! i)) = topic_filter"
        and same: "sc ! i = s0 ! i"
        by (auto split: if_splits)
      from hi sci have hs: "\<not> score < Fin (payload_threshold p)" by simp
      from exs s0 sc i ilen sci same hs tp rs show ?thesis by blast
    qed
  qed
next
  assume "mask_topic lower topic_filter examples 0 scores0 = Inr scores"
  from mask_topic_spec [OF this] show "length scores = length scores0" by simp
next
  assume "mask_topic lower topic_filter examples 0 scores0 = Inr scores"
  from mask_topic_spec [OF this]
  show "\<forall>j<length scores. scores ! j =
           (if j < length examples \<and>
               normalized_topic lower (tag_or_general (examples ! j)) \<noteq> topic_filter
            then NegInf else scores0 ! j)" by simp
next
  assume "scores \<noteq> [] \<and> (\<forall>j<length scores. scores ! j = NegInf)"
  then have "py_max scores = Inr NegInf" by (auto simp: py_max_NegInf in_set_conv_nth)
  then show "select_answer rnd examples threshold scores = Inr (FALLBACK_MESSAGE, Fin 0, [])"
    by (simp add: select_answer_def)
qed

lemma eval_step_skip:
  "ex_pattern ex = Some pat \<Longrightarrow> normalize_text pat = [] \<Longrightarrow> eval_step p exs th i ex st = Inr st"
  by (simp add: eval_step_def split: prod.split)

lemma eval_step_ranked:
  assumes "ex_pattern ex = Some pat" "normalize_text pat \<noteq> []"
    and "compute_scores (normalize_text pat) p = Inr scores0" "i < length scores0"
    and "eval_step p exs th i ex (t, c, f) = Inr st'"
  shows "\<exists>best. argmax_index (scores0[i := NegInf]) = Inr best \<and>
           (if scores0[i := NegInf] ! best < Fin th then st' = (t + 1, c, f + 1)
            else best \<noteq> i \<and> best < length exs \<and>
                 st' = (t + 1, (if ex_tag (exs ! best) = ex_tag ex then c + 1 else c), f))"
proof -
  from assms(4) have ne: "scores0 \<noteq> []" by auto
  from assms(5) obtain best where best: "argmax_index (scores0[i := NegInf]) = Inr best"
    using assms(1-4) ne by (auto simp: eval_step_def Let_def split: sum.splits)
  show ?thesis
  proof (cases "scores0[i := NegInf] ! best < Fin th")
    case True
    with assms best ne show ?thesis by (simp add: eval_step_def Let_def)
  next
    case False
    have "best \<noteq> i"
    proof
      assume "best = i"
      with assms(4) have "scores0[i := NegInf] ! best = NegInf" by simp
      with False show False by simp
    qed
    with False assms best ne show ?thesis
      by (auto simp: eval_step_def Let_def split: if_splits option.splits)
  qed
qed

lemma eval_step_single:
  assumes "eval_step p [ex] th 0 ex (0, 0, 0) = Inr st"
  shows "st = (0, 0, 0) \<or> st = (1, 0, 1)"
proof (cases "ex_pattern ex")
  case None
  with assms show ?thesis by (simp add: eval_step_def)
next
  case (Some pat)
  show ?thesis
  proof (cases "normalize_text pat = []")
    case True
    with Some assms show ?thesis by (simp add: eval_step_skip)
  next
    case False
    show ?thesis
    proof (cases "compute_scores (normalize_text pat) p")
      case (Inl e)
      with Some False assms show ?thesis by (simp add: eval_step_def)
    next
      case (Inr scores0)
      show ?thesis
      proof (cases "scores0 = []")
        case True
        with Some False Inr assms show ?thesis by (simp add: eval_step_def)
      next
        case ne: False
        then have len: "0 < length scores0" by simp
        from eval_step_ranked [OF Some False Inr len assms]
        show ?thesis by (auto split: if_splits)
      qed
    qed
  qed
qed

lemma evaluate_single_partial:
  assumes "p_examples p = Some [ex]" "evaluate_method meth p = Inr r"
  shows "er_correct r = 0 \<and> er_fallbacks r = er_total r"
proof -
  from assms obtain st where st: "eval_step p [ex] (payload_threshold p) 0 ex (0, 0, 0) = Inr st"
    and r: "r = \<lparr>er_method = meth, er_total = fst st, er_correct = fst (snd st),
                 er_fallbacks = snd (snd st)\<rparr>"
    by (auto simp: evaluate_method_def Let_def split: sum.splits prod.splits)
  from eval_step_single [OF st] r show ?thesis by auto
qed

lemma evaluate_single_total:
  assumes ex: "p_examples p = Some [ex]" and pat: "ex_pattern ex = Some pat"
    and al: "one_entry_per_example p 1"
    and wf: "\<forall>ix. p_bm25_index p = Some ix \<longrightarrow> bm25_well_formed ix"
  shows "evaluate_method meth p =
           Inr \<lparr>er_method = meth, er_total = (if normalize_text pat = [] then 0 else 1),
                er_correct = 0, er_fallbacks = (if normalize_text pat = [] then 0 else 1)\<rparr>"
proof (cases "normalize_text pat = []")
  case True
  with ex pat show ?thesis
    by (simp add: evaluate_method_def eval_step_skip Let_def)
next
  case False
  from compute_scores_total [OF al wf] obtain scores0 where
    sc: "compute_scores (normalize_text pat) p = Inr scores0" by blast
  from compute_scores_length [OF al sc] obtain s where s: "scores0 = [s]"
    by (cases scores0) auto
  have "eval_step p [ex] (payload_threshold p) 0 ex (0, 0, 0) = Inr (1, 0, 1)"
    using pat False sc s by (simp add: eval_step_def argmax_index_def Let_def)
  with ex False show ?thesis by (simp add: evaluate_method_def Let_def)
qed

lemma eval_step_counts:
  assumes "eval_step p exs th i (exs ! i) (t, c, f) = Inr st'"
  shows "st' = (t + (if spec_attempted p exs i then 1 else 0),
                c + (if spec_correct p exs th i then 1 else 0),
                f + (if spec_fallback p exs th i then 1 else 0))"
proof (cases "ex_pattern (exs ! i)")
  case None
  with assms show ?thesis by (simp add: eval_step_def)
next
  case (Some pat)
  show ?thesis
  proof (cases "normalize_text pat = []")
    case True
    with Some assms show ?thesis
      by (simp add: eval_step_skip spec_attempted_def spec_correct_def spec_fallback_def
            spec_query_scores_def)
  next
    case False
    show ?thesis
    proof (cases "compute_scores (normalize_text pat) p")
      case (Inl e)
      with Some False assms show ?thesis by (simp add: eval_step_def)
    next
      case (Inr scores0)
      show ?thesis
      proof (cases "scores0 = []")
        case True
        with Some False Inr assms show ?thesis
          by (simp add: eval_step_def spec_attempted_def spec_correct_def spec_fallback_def
                spec_query_scores_def)
      next
        case ne: False
        show ?thesis
        proof (cases "length scores0 \<le> i")
          case True
          with Some False Inr ne assms show ?thesis by (simp add: eval_step_def)
        next
          case len: False
          then have i: "i < length scores0" by simp
          have q: "spec_query_scores p exs i = Some (scores0[i := NegInf])"
            using Some False Inr ne len by (simp add: spec_query_scores_def)
          from eval_step_ranked [OF Some False Inr i assms]
          obtain best where best: "argmax_index (scores0[i := NegInf]) = Inr best"
            and r: "if scores0[i := NegInf] ! best < Fin th then st' = (t + 1, c, f + 1)
                    else best \<noteq> i \<and> best < length exs \<and>
                      st' = (t + 1, (if ex_tag (exs ! best) = ex_tag (exs ! i) then c + 1 else c), f)"
            by blast
          show ?thesis
          proof (cases "scores0[i := NegInf] ! best < Fin th")
            case True
            with r q best show ?thesis
              by (simp add: spec_attempted_def spec_correct_def spec_fallback_def)
          next
            case False
            with r q best show ?thesis
              by (simp add: spec_attempted_def spec_correct_def spec_fallback_def)
          qed
        qed
      qed
    qed
  qed
qed

lemma eval_loop_counts:
  assumes "eval_loop p exs th k rest (t, c, f) = Inr (t', c', f')" "rest = drop k exs"
  shows "t' = t + length (filter (spec_attempted p exs) [k..<length exs]) \<and>
         c' = c + length (filter (spec_correct p exs th) [k..<length exs]) \<and>
         f' = f + length (filter (spec_fallback p exs th) [k..<length exs])"
  using assms
proof (induction rest arbitrary: k t c f)
  case Nil
  then have "length exs \<le> k" by simp
  with Nil show ?case by simp
next
  case (Cons ex rest)
  from Cons.prems(2) have k: "k < length exs"
    by (metis drop_all linorder_not_less list.distinct(1))
  with Cons.prems(2) have ex: "ex = exs ! k" and rest: "rest = drop (Suc k) exs"
    by (metis Cons_nth_drop_Suc list.inject)+
  from Cons.prems(1) obtain t1 c1 f1 where
    step: "eval_step p exs th k (exs ! k) (t, c, f) = Inr (t1, c1, f1)"
    and loop: "eval_loop p exs th (Suc k) rest (t1, c1, f1) = Inr (t', c', f')"
    unfolding ex by (auto split: sum.splits)
  from eval_step_counts [OF step]
  have s1: "t1 = t + (if spec_attempted p exs k then 1 else 0)"
    "c1 = c + (if spec_correct p exs th k then 1 else 0)"
    "f1 = f + (if spec_fallback p exs th k then 1 else 0)"
    by simp_all
  have upt: "[k..<length exs] = k # [Suc k..<length exs]" using k by (rule upt_conv_Cons)
  from Cons.IH [OF loop rest] show ?case
    unfolding upt s1 by simp
qed

lemma evaluate_method_counts:
  assumes "p_examples p = Some exs" "evaluate_method meth p = Inr r"
  shows "er_method r = meth \<and>
         er_total r = length (filter (spec_attempted p exs) [0..<length exs]) \<and>
         er_correct r = length (filter (spec_correct p exs (payload_threshold p)) [0..<length exs]) \<and>
         er_fallbacks r = length (filter (spec_fallback p exs (payload_threshold p)) [0..<length exs])"
proof -
  from assms obtain t c f where
    loop: "eval_loop p exs (payload_threshold p) 0 exs (0, 0, 0) = Inr (t, c, f)"
    and r: "r = \<lparr>er_method = meth, er_total = t, er_correct = c, er_fallbacks = f\<rparr>"
    by (auto simp: evaluate_method_def Let_def split: sum.splits prod.splits)
  from eval_loop_counts [OF loop] r show ?thesis by simp
qed

lemma eval_step_total:
  assumes al: "one_entry_per_example p (length exs)"
    and wf: "\<forall>ix. p_bm25_index p = Some ix \<longrightarrow> bm25_well_formed ix"
    and fields: "\<forall>e\<in>set exs. ex_pattern e \<noteq> None \<and> ex_tag e \<noteq> None"
    and i: "i < length exs"
  shows "\<exists>st'. eval_step p exs th i (exs ! i) st = Inr st'"
proof -
  obtain t c f where st: "st = (t, c, f)" by (cases st)
  from fields i obtain pat own where pat: "ex_pattern (exs ! i) = Some pat"
    and own: "ex_tag (exs ! i) = Some own" by (meson nth_mem not_Some_eq)
  show ?thesis
  proof (cases "normalize_text pat = []")
    case True
    with pat show ?thesis by (simp add: eval_step_skip st)
  next
    case False
    from compute_scores_total [OF al wf] obtain scores0 where
      sc: "compute_scores (normalize_text pat) p = Inr scores0" by blast
    from compute_scores_length [OF al sc] have len: "length scores0 = length exs" .
    with i have ne: "scores0 \<noteq> []" "scores0[i := NegInf] \<noteq> []" by auto
    from argmax_index_props [OF ne(2)] obtain best where
      best: "argmax_index (scores0[i := NegInf]) = Inr best" "best < length exs"
      using len by auto
    with fields obtain bt where bt: "ex_tag (exs ! best) = Some bt"
      by (meson nth_mem not_Some_eq)
    from pat own False sc len i ne best bt show ?thesis
      by (simp add: eval_step_def st Let_def)
  qed
qed

lemma eval_loop_total:
  assumes al: "one_entry_per_example p (length exs)"
    and wf: "\<forall>ix. p_bm25_index p = Some ix \<longrightarrow> bm25_well_formed ix"
    and fields: "\<forall>e\<in>set exs. ex_pattern e \<noteq> None \<and> ex_tag e \<noteq> None"
  shows "rest = drop k exs \<Longrightarrow> \<exists>st'. eval_loop p exs th k rest st = Inr st'"
proof (induction rest arbitrary: k st)
  case Nil
  then show ?case by (cases st) simp
next
  case (Cons ex rest)
  from Cons.prems have k: "k < length exs"
    by (metis drop_all linorder_not_less list.distinct(1))
  with Cons.prems have ex: "ex = exs ! k" and rest: "rest = drop (Suc k) exs"
    by (metis Cons_nth_drop_Suc list.inject)+
  from eval_step_total [OF al wf fields k] obtain st1 where
    "eval_step p exs th k (exs ! k) st = Inr st1" by blast
  with Cons.IH [OF rest, of st1] ex show ?case by simp
qed

lemma evaluate_method_total:
  assumes "p_examples p = Some exs" "one_entry_per_example p (length exs)"
    and "\<forall>ix. p_bm25_index p = Some ix \<longrightarrow> bm25_well_formed ix"
    and "\<forall>e\<in>set exs. ex_pattern e \<noteq> None \<and> ex_tag e \<noteq> None"
  shows "\<exists>r. evaluate_method meth p = Inr r"
proof -
  from eval_loop_total [OF assms(2-4), of exs 0 "payload_threshold p" "(0, 0, 0)"]
  obtain st' where "eval_loop p exs (payload_threshold p) 0 exs (0, 0, 0) = Inr st'" by auto
  with assms(1) show ?thesis
    by (cases st') (simp add: evaluate_method_def Let_def)
qed


text \<open>
  Claim C9: whenever \<open>evaluate_method\<close> returns, its three counters count, over every
  position \<open>i\<close> of the examples, the examples that are attempted (those whose pattern
  does not normalize to the empty text), the correct ones and the fallbacks, each ranked
  on the scores with its own position \<open>i\<close> forced to \<open>-infinity\<close>; and it does return
  when there is one score per example and every example has a pattern and a tag. In the
  loop body, an example whose pattern normalizes to the empty text leaves the counters as
  they are; for any other example the total grows by one and the winner of a query that
  is not a fallback is never \<open>i\<close> itself. Over a corpus of one example no query is ever
  counted correct and every counted query is a fallback: the only score, once set to
  \<open>-infinity\<close>, is the best score and lies below every threshold.
\<close>

theorem evaluate_leave_one_out:
  "(p_examples p = Some exs \<and> evaluate_method meth p = Inr r \<longrightarrow>
      er_method r = meth \<and>
      er_total r = length (filter (spec_attempted p exs) [0..<length exs]) \<and>
      er_correct r = length (filter (spec_correct p exs (payload_threshold p)) [0..<length exs]) \<and>
      er_fallbacks r = length (filter (spec_fallback p exs (payload_threshold p)) [0..<length exs]))
   \<and> (p_examples p = Some exs \<and> one_entry_per_example p (length exs) \<and>
       (\<forall>ix. p_bm25_index p = Some ix \<longrightarrow> bm25_well_formed ix) \<and>
       (\<forall>e\<in>set exs. ex_pattern e \<noteq> None \<and> ex_tag e \<noteq> None) \<longrightarrow>
         (\<exists>r. evaluate_method meth p = Inr r))
   \<and> (ex_pattern ex = Some pat \<and> normalize_text pat = [] \<longrightarrow>
      eval_step p exs th i ex st = Inr st)
   \<and> (ex_pattern ex = Some pat \<and> normalize_text pat \<noteq> [] \<and>
       compute_scores (normalize_text pat) p = Inr scores0 \<and> i < length scores0 \<and>
       eval_step p exs th i ex (t, c, f) = Inr st' \<longrightarrow>
         (\<exists>best. argmax_index (scores0[i := NegInf]) = Inr best \<and>
            (if scores0[i := NegInf] ! best < Fin th then st' = (t + 1, c, f + 1)
             else best \<noteq> i \<and> best < length exs \<and>
                  st' = (t + 1, (if ex_tag (exs ! best) = ex_tag ex then c + 1 else c), f))))
   \<and> (p_examples p = Some [ex] \<and> evaluate_method meth p = Inr r \<longrightarrow>
         er_correct r = 0 \<and> er_fallbacks r = er_total r)
   \<and> (p_examples p = Some [ex] \<and> ex_pattern ex = Some pat \<and> one_entry_per_example p 1 \<and>
       (\<forall>ix. p_bm25_index p = Some ix \<longrightarrow> bm25_well_formed ix) \<longrightarrow>
         evaluate_method meth p =
           Inr \<lparr>er_method = meth, er_total = (if normalize_text pat = [] then 0 else 1),
                er_correct = 0, er_fallbacks = (if normalize_text pat = [] then 0 else 1)\<rparr>)
   \<and> (length scores0 = 1 \<longrightarrow>
         argmax_index (scores0[0 := NegInf]) = Inr 0 \<and> scores0[0 := NegInf] ! 0 = NegInf \<and>
         scores0[0 := NegInf] ! 0 < Fin th)"
proof (intro conjI impI)
  assume h: "p_examples p = Some exs \<and> evaluate_method meth p = Inr r"
  then have c: "er_method r = meth \<and>
      er_total r = length (filter (spec_attempted p exs) [0..<length exs]) \<and>
      er_correct r = length (filter (spec_correct p exs (payload_threshold p)) [0..<length exs]) \<and>
      er_fallbacks r = length (filter (spec_fallback p exs (payload_threshold p)) [0..<length exs])"
    using evaluate_method_counts [of p exs meth r] by blast
  from c show "er_method r = meth" by blast
  from c show "er_total r = length (filter (spec_attempted p exs) [0..<length exs])" by blast
  from c show "er_correct r = length (filter (spec_correct p exs (payload_threshold p)) [0..<length exs])"
    by blast
  from c show "er_fallbacks r = length (filter (spec_fallback p exs (payload_threshold p)) [0..<length exs])"
    by blast
next
  assume "p_examples p = Some exs \<and> one_entry_per_example p (length exs) \<and>
       (\<forall>ix. p_bm25_index p = Some ix \<longrightarrow> bm25_well_formed ix) \<and>
       (\<forall>e\<in>set exs. ex_pattern e \<noteq> None \<and> ex_tag e \<noteq> None)"
  then show "\<exists>r. evaluate_method meth p = Inr r"
    using evaluate_method_total [of p exs meth] by blast
next
  assume "ex_pattern ex = Some pat \<and> normalize_text pat = []"
  then show "eval_step p exs th i ex st = Inr st" by (simp add: eval_step_skip)
next
  assume "ex_pattern ex = Some pat \<and> normalize_text pat \<noteq> [] \<and>
       compute_scores (normalize_text pat) p = Inr scores0 \<and> i < length scores0 \<and>
       eval_step p exs th i ex (t, c, f) = Inr st'"
  then show "\<exists>best. argmax_index (scores0[i := NegInf]) = Inr best \<and>
            (if scores0[i := NegInf] ! best < Fin th then st' = (t + 1, c, f + 1)
             else best \<noteq> i \<and> best < length exs \<and>
                  st' = (t + 1, (if ex_tag (exs ! best) = ex_tag ex then c + 1 else c), f))"
    using eval_step_ranked [of ex pat p scores0 i exs th t c f st'] by blast
next
  assume "p_examples p = Some [ex] \<and> evaluate_method meth p = Inr r"
  then show "er_correct r = 0" "er_fallbacks r = er_total r"
    using evaluate_single_partial [of p ex meth r] by simp_all
next
  assume "p_examples p = Some [ex] \<and> ex_pattern ex = Some pat \<and> one_entry_per_example p 1 \<and>
       (\<forall>ix. p_bm25_index p = Some ix \<longrightarrow> bm25_well_formed ix)"
  then show "evaluate_method meth p =
           Inr \<lparr>er_method = meth, er_total = (if normalize_text pat = [] then 0 else 1),
                er_correct = 0, er_fallbacks = (if normalize_text pat = [] then 0 else 1)\<rparr>"
    using evaluate_single_total [of p ex pat meth] by blast
next
  assume l: "length scores0 = 1"
  then obtain s where "scores0 = [s]" by (cases scores0) auto
  then show "argmax_index (scores0[0 := NegInf]) = Inr 0" "scores0[0 := NegInf] ! 0 = NegInf"
    "scores0[0 := NegInf] ! 0 < Fin th"
    by (simp_all add: argmax_index_def)
qed

text \<open>
  Claim C10: on a payload with no \<open>threshold\<close> entry the fallback decision is taken at
  0.25. In \<open>get_answer_with_source\<close>, once the argmax is reached, a best score below 0.25
  gives the fallback triple and a best score of 0.25 or more gives the answer of the
  matched example. In \<open>evaluate_method\<close> the fallbacks and the correct answers counted are
  those of the leave-one-out evaluation at the threshold 0.25. Both functions return what
  they return on the same payload with the threshold 0.25 stored.
\<close>

theorem default_threshold_quarter:
  assumes "p_threshold p = None"
  shows "(normalize_text user_text \<noteq> [] \<and> p_examples p = Some exs \<and>
          compute_scores (normalize_text user_text) p = Inr scores0 \<and>
          (if topic_filter \<noteq> ustr ''all'' then mask_topic lower topic_filter exs 0 scores0
           else Inr scores0) = Inr scores \<and>
          scores \<noteq> [] \<and> py_max scores \<noteq> Inr NegInf \<and> argmax_index scores = Inr best \<longrightarrow>
            (scores ! best < Fin 0.25 \<longrightarrow>
               get_answer_with_source lower rnd user_text p topic_filter
                 = Inr (FALLBACK_MESSAGE, scores ! best, [])) \<and>
            (\<not> scores ! best < Fin 0.25 \<and> best < length exs \<and>
             ex_responses (exs ! best) = Some rs \<longrightarrow>
               get_answer_with_source lower rnd user_text p topic_filter
                 = Inr (if rs \<noteq> [] then random_choice rnd rs else FALLBACK_MESSAGE,
                        scores ! best,
                        case ex_source_url (exs ! best) of None \<Rightarrow> [] | Some u \<Rightarrow> u)))
         \<and> (p_examples p = Some exs \<and> evaluate_method meth p = Inr r \<longrightarrow>
              er_total r = length (filter (spec_attempted p exs) [0..<length exs]) \<and>
              er_correct r = length (filter (spec_correct p exs 0.25) [0..<length exs]) \<and>
              er_fallbacks r = length (filter (spec_fallback p exs 0.25) [0..<length exs]))
         \<and> get_answer_with_source lower rnd user_text p topic_filter
             = get_answer_with_source lower rnd user_text (p\<lparr>p_threshold := Some 0.25\<rparr>) topic_filter
         \<and> evaluate_method meth p = evaluate_method meth (p\<lparr>p_threshold := Some 0.25\<rparr>)"
proof -
  have th: "payload_threshold p = 0.25" using assms by (simp add: payload_threshold_def)
  have a: "get_answer_with_source lower rnd user_text p topic_filter
             = Inr (FALLBACK_MESSAGE, scores ! best, [])"
    if "normalize_text user_text \<noteq> []" "p_examples p = Some exs"
       "compute_scores (normalize_text user_text) p = Inr scores0"
       "(if topic_filter \<noteq> ustr ''all'' then mask_topic lower topic_filter exs 0 scores0
           else Inr scores0) = Inr scores"
       "scores \<noteq> []" "py_max scores \<noteq> Inr NegInf" "argmax_index scores = Inr best"
       "scores ! best < Fin 0.25"
    using that by (simp add: get_answer_with_source_def select_answer_def Let_def th)
  have b: "get_answer_with_source lower rnd user_text p topic_filter
                 = Inr (if rs \<noteq> [] then random_choice rnd rs else FALLBACK_MESSAGE,
                        scores ! best,
                        case ex_source_url (exs ! best) of None \<Rightarrow> [] | Some u \<Rightarrow> u)"
    if "normalize_text user_text \<noteq> []" "p_examples p = Some exs"
       "compute_scores (normalize_text user_text) p = Inr scores0"
       "(if topic_filter \<noteq> ustr ''all'' then mask_topic lower topic_filter exs 0 scores0
           else Inr scores0) = Inr scores"
       "scores \<noteq> []" "py_max scores \<noteq> Inr NegInf" "argmax_index scores = Inr best"
       "\<not> scores ! best < Fin 0.25" "best < length exs" "ex_responses (exs ! best) = Some rs"
    using that by (simp add: get_answer_with_source_def select_answer_def Let_def th)
  have c: "er_total r = length (filter (spec_attempted p exs) [0..<length exs]) \<and>
           er_correct r = length (filter (spec_correct p exs 0.25) [0..<length exs]) \<and>
           er_fallbacks r = length (filter (spec_fallback p exs 0.25) [0..<length exs])"
    if "p_examples p = Some exs" "evaluate_method meth p = Inr r"
    using evaluate_method_counts [OF that] unfolding th by blast
  have d: "get_answer_with_source lower rnd user_text p topic_filter
             = get_answer_with_source lower rnd user_text (p\<lparr>p_threshold := Some 0.25\<rparr>) topic_filter"
    "evaluate_method meth p = evaluate_method meth (p\<lparr>p_threshold := Some 0.25\<rparr>)"
    using assms
    by (simp_all add: get_answer_with_source_def evaluate_method_def payload_threshold_def Let_def
        cong: option.case_cong sum.case_cong)
  from a b c d show ?thesis by blast
qed

text \<open>
  Claim C5: on a payload whose scoring structure has one entry per example, every score
  list \<open>compute_scores\<close> returns has as many entries as there are examples, and (the
  constants of a BM25 index being well formed) it does return one. \<open>prepare_corpus\<close>
  returns a corpus and a list of examples of the same length: the normalizations and the
  examples of exactly the patterns whose normalization is not empty, in order.
\<close>

theorem compute_scores_alignment:
  "(p_examples p = Some exs \<and> one_entry_per_example p (length exs) \<longrightarrow>
      (\<forall>scores. compute_scores q p = Inr scores \<longrightarrow> length scores = length exs) \<and>
      ((\<forall>ix. p_bm25_index p = Some ix \<longrightarrow> bm25_well_formed ix) \<longrightarrow>
         (\<exists>scores. compute_scores q p = Inr scores \<and> length scores = length exs)))
   \<and> (prepare_corpus d = Inr (corpus, examples) \<longrightarrow>
        length corpus = length examples \<and>
        corpus = map normalize_text (filter keeps (all_patterns d)) \<and>
        map ex_pattern examples = map Some (filter keeps (all_patterns d)))"
proof (intro conjI impI allI)
  fix scores
  assume "p_examples p = Some exs \<and> one_entry_per_example p (length exs)"
    and "compute_scores q p = Inr scores"
  then show "length scores = length exs" using compute_scores_length by blast
next
  assume "p_examples p = Some exs \<and> one_entry_per_example p (length exs)"
  then have al: "one_entry_per_example p (length exs)" by simp
  assume wf: "\<forall>ix. p_bm25_index p = Some ix \<longrightarrow> bm25_well_formed ix"
  from compute_scores_total [OF al wf, of q] obtain scores where
    sc: "compute_scores q p = Inr scores" by blast
  with compute_scores_length [OF al sc]
  show "\<exists>scores. compute_scores q p = Inr scores \<and> length scores = length exs"
    by blast
next
  assume pc: "prepare_corpus d = Inr (corpus, examples)"
  from prepare_corpus_aligned [OF pc]
  show "length corpus = length examples"
    "corpus = map normalize_text (filter keeps (all_patterns d))"
    "map ex_pattern examples = map Some (filter keeps (all_patterns d))"
    by blast+
qed

section \<open>Concrete runs on the small index\<close>

lemmas split_eval = py_split_def is_space_def

lemmas scores_eval = compute_scores_def score_boolean_def Let_def card_insert_if

lemmas topic_eval = normalized_topic_def tag_or_general_def py_strip_def
  replace_space_underscore_def py_lower_def lower_cp_def is_space_def

lemma demo_fields:
  "p_examples demo_payload = Some demo_examples"
  "p_threshold demo_payload = None"
  "payload_threshold demo_payload = 0.25"
  "p_bm25_index demo_payload = None"
  by (simp_all add: demo_payload_def payload_threshold_def)

lemma demo_single_fields:
  "p_examples demo_single = Some [hd demo_examples]"
  "payload_threshold demo_single = 0.1"
  "p_bm25_index demo_single = None"
  "ex_pattern (hd demo_examples) = Some (ustr ''Reset my password'')"
  by (simp_all add: demo_single_def payload_threshold_def demo_examples_def)

lemma demo_aligned: "one_entry_per_example demo_payload 3" "one_entry_per_example demo_single 1"
  by (simp_all add: one_entry_per_example_def payload_method_def demo_payload_def demo_single_def ustr_def)

lemma demo_topics:
  "map (\<lambda>e. normalized_topic py_lower (tag_or_general e)) demo_examples
     = [ustr ''account'', ustr ''weather'', ustr ''account'']"
  by (simp add: demo_examples_def topic_eval ustr_def)

lemma demo_normalize:
  "normalize_text (ustr ''How to reset the password?'') = ustr ''reset password''"
  "normalize_text (ustr ''reset router now please'') = ustr ''reset router now please''"
  "normalize_text (ustr ''reset router now please thanks'') = ustr ''reset router now please thanks''"
  "normalize_text (ustr ''Reset the router now'') = ustr ''reset router now''"
  "normalize_text (ustr ''What is the weather?'') = ustr ''weather''"
  "normalize_text (ustr ''Reset my password'') = ustr ''reset my password''"
  "normalize_text (ustr ''the'') = []"
  "normalize_text (ustr ''password reset'') = ustr ''password reset''"
  "normalize_text (ustr ''What is the weather today?'') = ustr ''weather today''"
  by (simp_all add: text_eval)

lemma demo_scores:
  "compute_scores (ustr ''reset password'') demo_payload = Inr [Fin 1, Fin 0, Fin 1]"
  "compute_scores (ustr ''reset router now please'') demo_payload = Inr [Fin (1/4), Fin 0, Fin (1/4)]"
  "compute_scores (ustr ''reset router now please thanks'') demo_payload = Inr [Fin (1/5), Fin 0, Fin (1/5)]"
  "compute_scores (ustr ''reset router now'') demo_payload = Inr [Fin (1/3), Fin 0, Fin (1/3)]"
  "compute_scores (ustr ''weather'') demo_payload = Inr [Fin 0, Fin 1, Fin 0]"
  "compute_scores (ustr ''reset my password'') demo_payload = Inr [Fin 1, Fin 0, Fin (2/3)]"
  "compute_scores (ustr ''weather today'') demo_payload = Inr [Fin 0, Fin 1, Fin 0]"
  "compute_scores (ustr ''password reset'') demo_payload = Inr [Fin 1, Fin 0, Fin 1]"
  by (simp_all add: demo_payload_def scores_eval split_eval ustr_def)


lemma demo_mask:
  "mask_topic py_lower (ustr ''account'') demo_examples 0 [Fin (1/3), Fin 0, Fin (1/3)]
     = Inr [Fin (1/3), NegInf, Fin (1/3)]"
  "mask_topic py_lower (ustr ''weather'') demo_examples 0 [Fin 0, Fin 1, Fin 0] = Inr [NegInf, Fin 1, NegInf]"
  "mask_topic py_lower (ustr ''sports'') demo_examples 0 [Fin 0, Fin 1, Fin 0] = Inr [NegInf, NegInf, NegInf]"
  by (simp_all add: demo_examples_def topic_eval ustr_def)

lemmas select_eval = select_answer_def py_max_def argmax_index_def random_choice_def Let_def

lemma demo_answers:
  "get_answer_with_source py_lower 0 (ustr ''reset router now please'') demo_payload (ustr ''all'')
     = Inr (ustr ''Go to settings.'', Fin (1/4), [])"
  "get_answer_with_source py_lower 0 (ustr ''reset router now please thanks'') demo_payload (ustr ''all'')
     = Inr (FALLBACK_MESSAGE, Fin (1/5), [])"
  unfolding get_answer_with_source_def Let_def demo_normalize demo_scores demo_fields
  by (simp_all add: demo_examples_def select_eval ustr_def)

text \<open>C8 on the small index with the threshold 1/2 and the topic filter \<open>account\<close>: the
  best score 1/3 is returned with the fallback message.\<close>

theorem fallback_carries_best_score_witness:
  "normalize_text (ustr ''Reset the router now'') \<noteq> []
   \<and> p_examples (demo_payload\<lparr>p_threshold := Some 0.5\<rparr>) = Some demo_examples
   \<and> compute_scores (normalize_text (ustr ''Reset the router now''))
         (demo_payload\<lparr>p_threshold := Some 0.5\<rparr>) = Inr [Fin (1/3), Fin 0, Fin (1/3)]
   \<and> mask_topic py_lower (ustr ''account'') demo_examples 0 [Fin (1/3), Fin 0, Fin (1/3)]
         = Inr [Fin (1/3), NegInf, Fin (1/3)]
   \<and> py_max [Fin (1/3), NegInf, Fin (1/3)] = Inr (Fin (1/3))
   \<and> argmax_index [Fin (1/3), NegInf, Fin (1/3)] = Inr 0
   \<and> payload_threshold (demo_payload\<lparr>p_threshold := Some 0.5\<rparr>) = 0.5
   \<and> get_answer_with_source py_lower 0 (ustr ''Reset the router now'')
         (demo_payload\<lparr>p_threshold := Some 0.5\<rparr>) (ustr ''account'')
       = Inr (FALLBACK_MESSAGE, Fin (1/3), [])"
proof -
  let ?p = "demo_payload\<lparr>p_threshold := Some 0.5\<rparr>"
  let ?sc = "[Fin (1/3), NegInf, Fin (1/3)]"
  have h1: "normalize_text (ustr ''Reset the router now'') \<noteq> []"
    unfolding demo_normalize by (simp add: ustr_def)
  have h2: "p_examples ?p = Some demo_examples" by (simp add: demo_fields)
  have h3: "compute_scores (normalize_text (ustr ''Reset the router now'')) ?p
              = Inr [Fin (1/3), Fin 0, Fin (1/3)]"
    by (simp add: demo_normalize demo_scores)
  have h4: "(if ustr ''account'' \<noteq> ustr ''all''
             then mask_topic py_lower (ustr ''account'') demo_examples 0 [Fin (1/3), Fin 0, Fin (1/3)]
             else Inr [Fin (1/3), Fin 0, Fin (1/3)]) = Inr ?sc"
    by (simp add: demo_mask) (simp add: ustr_def)
  have h5: "?sc \<noteq> []" by simp
  have m: "py_max ?sc = Inr (Fin (1/3))" by (simp add: py_max_def)
  then have h6: "py_max ?sc \<noteq> Inr NegInf" by simp
  have h7: "argmax_index ?sc = Inr 0" by (simp add: argmax_index_def)
  have th: "payload_threshold ?p = 0.5" by (simp add: payload_threshold_def)
  have h8: "?sc ! 0 < Fin (payload_threshold ?p)" unfolding th by simp
  from fallback_carries_best_score [OF h1 h2 h3 h4 h5 h6 h7 h8, of 0]
  have "get_answer_with_source py_lower 0 (ustr ''Reset the router now'') ?p (ustr ''account'')
          = Inr (FALLBACK_MESSAGE, Fin (1/3), [])" by simp
  with h1 h2 h3 demo_mask(1) m h7 th show ?thesis by simp
qed

lemma demo_filtered_answers:
  "get_answer_with_source py_lower 0 (ustr ''What is the weather?'') demo_payload (ustr ''weather'')
     = Inr (ustr ''Sunny.'', Fin 1, ustr ''http://w'')"
  "get_answer_with_source py_lower 0 (ustr ''What is the weather?'') demo_payload (ustr ''sports'')
     = Inr (FALLBACK_MESSAGE, Fin 0, [])"
proof -
  have ne: "ustr ''weather'' \<noteq> ustr ''all''" "ustr ''sports'' \<noteq> ustr ''all''"
    by (simp_all add: ustr_def)
  show "get_answer_with_source py_lower 0 (ustr ''What is the weather?'') demo_payload (ustr ''weather'')
     = Inr (ustr ''Sunny.'', Fin 1, ustr ''http://w'')"
    unfolding get_answer_with_source_def Let_def demo_normalize demo_scores demo_fields
    by (simp add: ne demo_mask) (simp add: demo_examples_def select_eval ustr_def)
  show "get_answer_with_source py_lower 0 (ustr ''What is the weather?'') demo_payload (ustr ''sports'')
     = Inr (FALLBACK_MESSAGE, Fin 0, [])"
    unfolding get_answer_with_source_def Let_def demo_normalize demo_scores demo_fields
    by (simp add: ne demo_mask) (simp add: demo_examples_def select_eval ustr_def)
qed

lemma demo_prepare:
  "prepare_corpus demo_intents =
     Inr ([ustr ''reset my password'', ustr ''password reset''],
          [\<lparr>ex_tag = Some (ustr ''account''), ex_pattern = Some (ustr ''Reset my password''),
            ex_responses = Some [ustr ''Go to settings.''], ex_source_url = None\<rparr>,
           \<lparr>ex_tag = Some (ustr ''account''), ex_pattern = Some (ustr ''password reset''),
            ex_responses = Some [ustr ''Go to settings.''], ex_source_url = None\<rparr>])"
  unfolding prepare_corpus_def demo_intents_def
  by (simp add: Let_def demo_normalize) (simp add: ustr_def)

text \<open>C5 on the small index and the small intents file: three scores for three
  examples, and a corpus of two entries for three patterns, one of them dropped.\<close>

theorem compute_scores_alignment_witness:
  "p_examples demo_payload = Some demo_examples
   \<and> one_entry_per_example demo_payload (length demo_examples)
   \<and> compute_scores (ustr ''reset password'') demo_payload = Inr [Fin 1, Fin 0, Fin 1]
   \<and> length [Fin 1, Fin 0, Fin (1::real)] = length demo_examples
   \<and> prepare_corpus demo_intents =
       Inr ([ustr ''reset my password'', ustr ''password reset''],
          [\<lparr>ex_tag = Some (ustr ''account''), ex_pattern = Some (ustr ''Reset my password''),
            ex_responses = Some [ustr ''Go to settings.''], ex_source_url = None\<rparr>,
           \<lparr>ex_tag = Some (ustr ''account''), ex_pattern = Some (ustr ''password reset''),
            ex_responses = Some [ustr ''Go to settings.''], ex_source_url = None\<rparr>])
   \<and> filter keeps (all_patterns demo_intents) = [ustr ''Reset my password'', ustr ''password reset'']"
proof -
  have len: "length demo_examples = 3" by (simp add: demo_examples_def)
  have al: "one_entry_per_example demo_payload (length demo_examples)"
    unfolding len by (rule demo_aligned(1))
  note T = compute_scores_alignment [where p = demo_payload and exs = demo_examples
      and q = "ustr ''reset password''" and d = demo_intents
      and corpus = "[ustr ''reset my password'', ustr ''password reset'']"
      and examples = "[\<lparr>ex_tag = Some (ustr ''account''), ex_pattern = Some (ustr ''Reset my password''),
            ex_responses = Some [ustr ''Go to settings.''], ex_source_url = None\<rparr>,
           \<lparr>ex_tag = Some (ustr ''account''), ex_pattern = Some (ustr ''password reset''),
            ex_responses = Some [ustr ''Go to settings.''], ex_source_url = None\<rparr>]"]
  from T demo_prepare
  have "map ex_pattern
          [\<lparr>ex_tag = Some (ustr ''account''), ex_pattern = Some (ustr ''Reset my password''),
            ex_responses = Some [ustr ''Go to settings.''], ex_source_url = None\<rparr>,
           \<lparr>ex_tag = Some (ustr ''account''), ex_pattern = Some (ustr ''password reset''),
            ex_responses = Some [ustr ''Go to settings.''], ex_source_url = None\<rparr>]
        = map Some (filter keeps (all_patterns demo_intents))"
    by blast
  then have k: "filter keeps (all_patterns demo_intents)
                  = [ustr ''Reset my password'', ustr ''password reset'']"
    by (cases "filter keeps (all_patterns demo_intents)") (auto simp: map_eq_Cons_conv)
  from T demo_fields(1) al demo_scores(1)
  have l: "length [Fin 1, Fin 0, Fin (1::real)] = length demo_examples" by blast
  from demo_fields(1) al demo_scores(1) l demo_prepare k show ?thesis by blast
qed

lemma demo_single_scores:
  "compute_scores (ustr ''reset my password'') demo_single = Inr [Fin 1]"
  by (simp add: demo_single_def scores_eval split_eval ustr_def)

lemma demo_eval_steps:
  "eval_step demo_payload demo_examples (1/4) 0 (demo_examples ! 0) (0, 0, 0) = Inr (1, 1, 0)"
  "eval_step demo_payload demo_examples (1/4) 1 (demo_examples ! 1) (1, 1, 0) = Inr (2, 1, 1)"
  "eval_step demo_payload demo_examples (1/4) 2 (demo_examples ! 2) (2, 1, 1) = Inr (3, 2, 1)"
proof -
  have pats: "ex_pattern (demo_examples ! 0) = Some (ustr ''Reset my password'')"
    "ex_pattern (demo_examples ! 1) = Some (ustr ''What is the weather today?'')"
    "ex_pattern (demo_examples ! 2) = Some (ustr ''password reset'')"
    by (simp_all add: demo_examples_def)
  have ne: "ustr ''reset my password'' \<noteq> []" "ustr ''weather today'' \<noteq> []"
    "ustr ''password reset'' \<noteq> []"
    by (simp_all add: ustr_def)
  show "eval_step demo_payload demo_examples (1/4) 0 (demo_examples ! 0) (0, 0, 0) = Inr (1, 1, 0)"
    unfolding eval_step_def Let_def pats
    by (simp add: demo_normalize demo_scores ne) (simp add: argmax_index_def demo_examples_def)
  show "eval_step demo_payload demo_examples (1/4) 1 (demo_examples ! 1) (1, 1, 0) = Inr (2, 1, 1)"
    unfolding eval_step_def Let_def pats
    by (simp add: demo_normalize demo_scores ne) (simp add: argmax_index_def demo_examples_def)
  show "eval_step demo_payload demo_examples (1/4) 2 (demo_examples ! 2) (2, 1, 1) = Inr (3, 2, 1)"
    unfolding eval_step_def Let_def pats
    by (simp add: demo_normalize demo_scores ne) (simp add: argmax_index_def demo_examples_def)
qed

lemma demo_quarter_fields:
  "p_examples demo_quarter = Some demo_quarter_examples"
  "p_threshold demo_quarter = None"
  "payload_threshold demo_quarter = 1/4"
  "length demo_quarter_examples = 3"
  "ex_pattern (demo_quarter_examples ! 0) = Some (ustr ''reset router now please'')"
  "ex_pattern (demo_quarter_examples ! Suc 0) = Some (ustr ''reset'')"
  "ex_pattern (demo_quarter_examples ! Suc (Suc 0)) = Some (ustr ''reset alpha beta gamma delta'')"
  by (simp_all add: demo_quarter_def payload_threshold_def demo_quarter_examples_def)

lemma demo_quarter_normalize:
  "normalize_text (ustr ''reset router now please'') = ustr ''reset router now please''"
  "normalize_text (ustr ''reset'') = ustr ''reset''"
  "normalize_text (ustr ''reset alpha beta gamma delta'') = ustr ''reset alpha beta gamma delta''"
  by (simp_all add: text_eval)

lemma demo_quarter_nonempty:
  "ustr ''reset router now please'' \<noteq> []" "ustr ''reset'' \<noteq> []"
  "ustr ''reset alpha beta gamma delta'' \<noteq> []"
  by (simp_all add: ustr_def)

lemma demo_quarter_scores:
  "compute_scores (ustr ''reset router now please'') demo_quarter = Inr [Fin 1, Fin (1/4), Fin (1/4)]"
  "compute_scores (ustr ''reset'') demo_quarter = Inr [Fin 1, Fin 1, Fin 1]"
  "compute_scores (ustr ''reset alpha beta gamma delta'') demo_quarter = Inr [Fin (1/5), Fin (1/5), Fin 1]"
  by (simp_all add: demo_quarter_def scores_eval split_eval ustr_def)

lemma demo_quarter_query_scores:
  "spec_query_scores demo_quarter demo_quarter_examples 0 = Some [NegInf, Fin (1/4), Fin (1/4)]"
  "spec_query_scores demo_quarter demo_quarter_examples (Suc 0) = Some [Fin 1, NegInf, Fin 1]"
  "spec_query_scores demo_quarter demo_quarter_examples (Suc (Suc 0)) = Some [Fin (1/5), Fin (1/5), NegInf]"
  unfolding spec_query_scores_def demo_quarter_fields
  by (simp_all add: demo_quarter_normalize demo_quarter_scores demo_quarter_nonempty)

lemma demo_quarter_outcomes:
  "\<not> spec_fallback demo_quarter demo_quarter_examples (1/4) 0"
  "spec_correct demo_quarter demo_quarter_examples (1/4) 0"
  "\<not> spec_fallback demo_quarter demo_quarter_examples (1/4) (Suc 0)"
  "spec_correct demo_quarter demo_quarter_examples (1/4) (Suc 0)"
  "spec_fallback demo_quarter demo_quarter_examples (1/4) (Suc (Suc 0))"
  "\<not> spec_correct demo_quarter demo_quarter_examples (1/4) (Suc (Suc 0))"
  unfolding spec_fallback_def spec_correct_def demo_quarter_query_scores
  by (simp_all add: argmax_index_def demo_quarter_examples_def)

lemma demo_quarter_steps:
  "eval_step demo_quarter demo_quarter_examples (1/4) 0 (demo_quarter_examples ! 0) (0, 0, 0)
     = Inr (1, 1, 0)"
  "eval_step demo_quarter demo_quarter_examples (1/4) (Suc 0) (demo_quarter_examples ! Suc 0) (1, 1, 0)
     = Inr (2, 2, 0)"
  "eval_step demo_quarter demo_quarter_examples (1/4) (Suc (Suc 0))
     (demo_quarter_examples ! Suc (Suc 0)) (2, 2, 0) = Inr (3, 2, 1)"
  unfolding eval_step_def Let_def demo_quarter_fields
  by (simp_all add: demo_quarter_normalize demo_quarter_scores demo_quarter_nonempty)
     (simp_all add: argmax_index_def demo_quarter_examples_def)

lemma demo_quarter_run:
  "evaluate_method (ustr ''boolean'') demo_quarter =
     Inr \<lparr>er_method = ustr ''boolean'', er_total = 3, er_correct = 2, er_fallbacks = 1\<rparr>"
proof -
  have l: "demo_quarter_examples =
      [demo_quarter_examples ! 0, demo_quarter_examples ! Suc 0, demo_quarter_examples ! Suc (Suc 0)]"
    by (simp add: demo_quarter_examples_def)
  have "eval_loop demo_quarter demo_quarter_examples (1/4) 0 demo_quarter_examples (0, 0, 0)
      = eval_loop demo_quarter demo_quarter_examples (1/4) 0
          [demo_quarter_examples ! 0, demo_quarter_examples ! Suc 0,
           demo_quarter_examples ! Suc (Suc 0)] (0, 0, 0)"
    by (rule arg_cong [where f = "\<lambda>xs. eval_loop demo_quarter demo_quarter_examples (1/4) 0 xs (0, 0, 0)", OF l])
  also have "\<dots> = Inr (3, 2, 1)"
    by (simp only: eval_loop.simps demo_quarter_steps sum.case)
  finally have "eval_loop demo_quarter demo_quarter_examples (1/4) 0 demo_quarter_examples (0, 0, 0)
      = Inr (3, 2, 1)" .
  then show ?thesis
    by (simp add: evaluate_method_def demo_quarter_fields Let_def)
qed


text \<open>C10 on two indexes that store no threshold. The evaluator, run on the second one,
  counts three queries, two correct and one fallback: the best remaining score of its first
  example is exactly 1/4 and is answered, that of its third example is 1/5 and falls
  back. The matcher, on the first index, answers a best score of exactly 1/4 and falls back
  on a best score of 1/5.\<close>

theorem default_threshold_quarter_witness:
  "p_threshold demo_quarter = None
   \<and> p_examples demo_quarter = Some demo_quarter_examples
   \<and> evaluate_method (ustr ''boolean'') demo_quarter =
        Inr \<lparr>er_method = ustr ''boolean'', er_total = 3, er_correct = 2, er_fallbacks = 1\<rparr>
   \<and> spec_query_scores demo_quarter demo_quarter_examples 0 = Some [NegInf, Fin (1/4), Fin (1/4)]
   \<and> \<not> spec_fallback demo_quarter demo_quarter_examples (1/4) 0
   \<and> spec_query_scores demo_quarter demo_quarter_examples (Suc (Suc 0))
        = Some [Fin (1/5), Fin (1/5), NegInf]
   \<and> spec_fallback demo_quarter demo_quarter_examples (1/4) (Suc (Suc 0))
   \<and> length (filter (spec_fallback demo_quarter demo_quarter_examples 0.25)
                [0..<length demo_quarter_examples]) = 1
   \<and> length (filter (spec_correct demo_quarter demo_quarter_examples 0.25)
                [0..<length demo_quarter_examples]) = 2
   \<and> p_threshold demo_payload = None
   \<and> compute_scores (normalize_text (ustr ''reset router now please'')) demo_payload
        = Inr [Fin (1/4), Fin 0, Fin (1/4)]
   \<and> get_answer_with_source py_lower 0 (ustr ''reset router now please'') demo_payload (ustr ''all'')
        = Inr (ustr ''Go to settings.'', Fin (1/4), [])
   \<and> compute_scores (normalize_text (ustr ''reset router now please thanks'')) demo_payload
        = Inr [Fin (1/5), Fin 0, Fin (1/5)]
   \<and> get_answer_with_source py_lower 0 (ustr ''reset router now please thanks'') demo_payload
         (ustr ''all'')
        = Inr (FALLBACK_MESSAGE, Fin (1/5), [])"
proof -
  note E = default_threshold_quarter [OF demo_quarter_fields(2), where exs = demo_quarter_examples
      and meth = "ustr ''boolean''"
      and r = "\<lparr>er_method = ustr ''boolean'', er_total = 3, er_correct = 2, er_fallbacks = 1\<rparr>"]
  from E demo_quarter_fields(1) demo_quarter_run
  have counts:
    "length (filter (spec_fallback demo_quarter demo_quarter_examples 0.25)
                [0..<length demo_quarter_examples]) = 1"
    "length (filter (spec_correct demo_quarter demo_quarter_examples 0.25)
                [0..<length demo_quarter_examples]) = 2"
    by simp_all
  let ?q4 = "ustr ''reset router now please''"
  let ?q5 = "ustr ''reset router now please thanks''"
  have n4: "normalize_text ?q4 \<noteq> []" and n5: "normalize_text ?q5 \<noteq> []"
    unfolding demo_normalize by (simp_all add: ustr_def)
  have s4: "compute_scores (normalize_text ?q4) demo_payload = Inr [Fin (1/4), Fin 0, Fin (1/4)]"
    and s5: "compute_scores (normalize_text ?q5) demo_payload = Inr [Fin (1/5), Fin 0, Fin (1/5)]"
    by (simp_all add: demo_normalize demo_scores)
  have m4: "(if ustr ''all'' \<noteq> ustr ''all''
             then mask_topic py_lower (ustr ''all'') demo_examples 0 [Fin (1/4), Fin 0, Fin (1/4)]
             else Inr [Fin (1/4), Fin 0, Fin (1/4)]) = Inr [Fin (1/4), Fin 0, Fin (1/4)]"
    and m5: "(if ustr ''all'' \<noteq> ustr ''all''
             then mask_topic py_lower (ustr ''all'') demo_examples 0 [Fin (1/5), Fin 0, Fin (1/5)]
             else Inr [Fin (1/5), Fin 0, Fin (1/5)]) = Inr [Fin (1/5), Fin 0, Fin (1/5)]"
    by simp_all
  have r4: "[Fin (1/4), Fin 0, Fin (1/4)] \<noteq> []"
    "py_max [Fin (1/4), Fin 0, Fin (1/4)] \<noteq> Inr NegInf"
    "argmax_index [Fin (1/4), Fin 0, Fin (1/4)] = Inr 0"
    "\<not> [Fin (1/4), Fin 0, Fin (1/4)] ! 0 < Fin 0.25"
    "0 < length demo_examples"
    "ex_responses (demo_examples ! 0) = Some [ustr ''Go to settings.'']"
    by (simp_all add: py_max_def argmax_index_def demo_examples_def)
  have r5: "[Fin (1/5), Fin 0, Fin (1/5)] \<noteq> []"
    "py_max [Fin (1/5), Fin 0, Fin (1/5)] \<noteq> Inr NegInf"
    "argmax_index [Fin (1/5), Fin 0, Fin (1/5)] = Inr 0"
    "[Fin (1/5), Fin 0, Fin (1/5)] ! 0 < Fin 0.25"
    by (simp_all add: py_max_def argmax_index_def)
  note G4 = default_threshold_quarter [OF demo_fields(2), where user_text = ?q4
      and exs = demo_examples and scores0 = "[Fin (1/4), Fin 0, Fin (1/4)]"
      and scores = "[Fin (1/4), Fin 0, Fin (1/4)]" and topic_filter = "ustr ''all''"
      and lower = py_lower and best = 0 and rnd = 0 and rs = "[ustr ''Go to settings.'']"]
  from G4 n4 demo_fields(1) s4 m4 r4
  have "get_answer_with_source py_lower 0 ?q4 demo_payload (ustr ''all'')
          = Inr (if [ustr ''Go to settings.''] \<noteq> [] then random_choice 0 [ustr ''Go to settings.'']
                 else FALLBACK_MESSAGE,
                 [Fin (1/4), Fin 0, Fin (1/4)] ! 0,
                 case ex_source_url (demo_examples ! 0) of None \<Rightarrow> [] | Some u \<Rightarrow> u)"
    by blast
  then have a4: "get_answer_with_source py_lower 0 ?q4 demo_payload (ustr ''all'')
          = Inr (ustr ''Go to settings.'', Fin (1/4), [])"
    by (simp add: random_choice_def demo_examples_def)
  note G5 = default_threshold_quarter [OF demo_fields(2), where user_text = ?q5
      and exs = demo_examples and scores0 = "[Fin (1/5), Fin 0, Fin (1/5)]"
      and scores = "[Fin (1/5), Fin 0, Fin (1/5)]" and topic_filter = "ustr ''all''"
      and lower = py_lower and best = 0 and rnd = 0]
  from G5 n5 demo_fields(1) s5 m5 r5
  have "get_answer_with_source py_lower 0 ?q5 demo_payload (ustr ''all'')
          = Inr (FALLBACK_MESSAGE, [Fin (1/5), Fin 0, Fin (1/5)] ! 0, [])"
    by blast
  then have a5: "get_answer_with_source py_lower 0 ?q5 demo_payload (ustr ''all'')
          = Inr (FALLBACK_MESSAGE, Fin (1/5), [])"
    by simp
  from demo_quarter_fields(1,2) demo_quarter_run demo_quarter_query_scores(1,3)
    demo_quarter_outcomes(1,5) counts demo_fields(2) s4 a4 s5 a5
  show ?thesis by blast
qed


text \<open>C6 on the small index: under the filter \<open>weather\<close> the answer is that of the
  example the maximum of the masked scores selects, which is the weather example, the
  two others being masked; under a filter no example has, every score is masked and the
  result is the fallback triple. The tags of the small index are ASCII, where
  \<open>py_lower\<close> is \<^verbatim>\<open>str.lower\<close>.\<close>

theorem topic_filter_sound_witness:
  "ustr ''weather'' \<noteq> ustr ''all''
   \<and> get_answer_with_source py_lower 0 (ustr ''What is the weather?'') demo_payload (ustr ''weather'')
       = Inr (ustr ''Sunny.'', Fin 1, ustr ''http://w'')
   \<and> ustr ''Sunny.'' \<noteq> FALLBACK_MESSAGE
   \<and> p_examples demo_payload = Some demo_examples
   \<and> compute_scores (normalize_text (ustr ''What is the weather?'')) demo_payload
       = Inr [Fin 0, Fin 1, Fin 0]
   \<and> mask_topic py_lower (ustr ''weather'') demo_examples 0 [Fin 0, Fin 1, Fin 0]
       = Inr [NegInf, Fin 1, NegInf]
   \<and> argmax_index [NegInf, Fin 1, NegInf] = Inr 1
   \<and> normalized_topic py_lower (tag_or_general (demo_examples ! 1)) = ustr ''weather''
   \<and> ex_responses (demo_examples ! 1) = Some [ustr ''Sunny.'']
   \<and> normalized_topic py_lower (tag_or_general (demo_examples ! 0)) \<noteq> ustr ''weather''
   \<and> normalized_topic py_lower (tag_or_general (demo_examples ! 2)) \<noteq> ustr ''weather''
   \<and> mask_topic py_lower (ustr ''sports'') demo_examples 0 [Fin 0, Fin 1, Fin 0]
       = Inr [NegInf, NegInf, NegInf]
   \<and> select_answer 0 demo_examples (1/4) [NegInf, NegInf, NegInf] = Inr (FALLBACK_MESSAGE, Fin 0, [])
   \<and> get_answer_with_source py_lower 0 (ustr ''What is the weather?'') demo_payload (ustr ''sports'')
       = Inr (FALLBACK_MESSAGE, Fin 0, [])"
proof -
  have ne: "ustr ''weather'' \<noteq> ustr ''all''" by (simp add: ustr_def)
  have nf: "ustr ''Sunny.'' \<noteq> FALLBACK_MESSAGE" by (simp add: FALLBACK_MESSAGE_def ustr_def)
  have sc: "compute_scores (normalize_text (ustr ''What is the weather?'')) demo_payload
       = Inr [Fin 0, Fin 1, Fin 0]"
    by (simp add: demo_normalize demo_scores)
  have am: "argmax_index [NegInf, Fin 1, NegInf] = Inr 1" by (simp add: argmax_index_def)
  have rs: "ex_responses (demo_examples ! 1) = Some [ustr ''Sunny.'']"
    by (simp add: demo_examples_def)
  note T = topic_filter_sound [where lower = py_lower and rnd = 0
      and user_text = "ustr ''What is the weather?''" and p = demo_payload
      and topic_filter = "ustr ''weather''" and answer = "ustr ''Sunny.''" and score = "Fin 1"
      and source_url = "ustr ''http://w''" and scores = "[NegInf, NegInf, NegInf]"
      and examples = demo_examples and threshold = "1/4"]
  from T ne demo_filtered_answers(1) nf
  obtain examples scores0 scores i where
    e: "p_examples demo_payload = Some examples" and
    s0: "compute_scores (normalize_text (ustr ''What is the weather?'')) demo_payload = Inr scores0" and
    m: "mask_topic py_lower (ustr ''weather'') examples 0 scores0 = Inr scores" and
    a: "argmax_index scores = Inr i" and
    t: "normalized_topic py_lower (tag_or_general (examples ! i)) = ustr ''weather''"
    by blast
  from e demo_fields(1) have e': "examples = demo_examples" by simp
  from s0 sc have s0': "scores0 = [Fin 0, Fin 1, Fin 0]" by simp
  from m e' s0' demo_mask(2) have m': "scores = [NegInf, Fin 1, NegInf]" by simp
  from a m' am have "i = 1" by simp
  with t e' have tp: "normalized_topic py_lower (tag_or_general (demo_examples ! 1)) = ustr ''weather''"
    by simp
  have masked: "[NegInf, Fin 1, NegInf] ! 0 = NegInf" "[NegInf, Fin 1, NegInf] ! 2 = NegInf"
    "[Fin 0, Fin 1, Fin 0] ! 0 \<noteq> NegInf" "[Fin 0, Fin 1, Fin (0::real)] ! 2 \<noteq> NegInf"
    "(0::nat) < length [NegInf, Fin 1, NegInf]" "(2::nat) < length [NegInf, Fin 1, NegInf]"
    by simp_all
  have others: "normalized_topic py_lower (tag_or_general (demo_examples ! 0)) \<noteq> ustr ''weather''"
    "normalized_topic py_lower (tag_or_general (demo_examples ! 2)) \<noteq> ustr ''weather''"
    by (simp_all add: demo_examples_def topic_eval ustr_def)
  have "[NegInf, NegInf, NegInf] \<noteq> [] \<and>
        (\<forall>j<length [NegInf, NegInf, NegInf]. [NegInf, NegInf, NegInf] ! j = NegInf)"
    by (simp add: nth_Cons' All_less_Suc)
  with T
  have fb: "select_answer 0 demo_examples (1/4) [NegInf, NegInf, NegInf]
              = Inr (FALLBACK_MESSAGE, Fin 0, [])"
    by blast
  from ne demo_filtered_answers nf demo_fields(1) sc demo_mask(2,3) am tp rs others fb
  show ?thesis by blast
qed

lemma demo_payload_run:
  "evaluate_method (ustr ''boolean'') demo_payload =
     Inr \<lparr>er_method = ustr ''boolean'', er_total = 3, er_correct = 2, er_fallbacks = 1\<rparr>"
proof -
  have l: "demo_examples = [demo_examples ! 0, demo_examples ! 1, demo_examples ! 2]"
    by (simp add: demo_examples_def)
  have n: "Suc 0 = 1" "Suc 1 = 2" by simp_all
  have "eval_loop demo_payload demo_examples (1/4) 0 demo_examples (0, 0, 0)
        = eval_loop demo_payload demo_examples (1/4) 0
            [demo_examples ! 0, demo_examples ! 1, demo_examples ! 2] (0, 0, 0)"
    by (rule arg_cong [where f = "\<lambda>xs. eval_loop demo_payload demo_examples (1/4) 0 xs (0, 0, 0)",
          OF l])
  also have "\<dots> = Inr (3, 2, 1)"
    by (simp only: eval_loop.simps demo_eval_steps sum.case n)
  finally have "eval_loop demo_payload demo_examples (1/4) 0 demo_examples (0, 0, 0) = Inr (3, 2, 1)" .
  then show ?thesis by (simp add: evaluate_method_def demo_fields Let_def)
qed

text \<open>C9: the whole loop on the two three-example indexes, with the counters it returns
  and the counts of the leave-one-out predicates; the second example of the small index,
  whose own entry is the only one with a positive score, falls back once that entry is
  excluded; the one-example index evaluates to one query, no correct answer, one
  fallback; an example whose pattern normalizes to nothing is passed over.\<close>

theorem evaluate_leave_one_out_witness:
  "p_examples demo_payload = Some demo_examples
   \<and> evaluate_method (ustr ''boolean'') demo_payload =
        Inr \<lparr>er_method = ustr ''boolean'', er_total = 3, er_correct = 2, er_fallbacks = 1\<rparr>
   \<and> length (filter (spec_attempted demo_payload demo_examples) [0..<length demo_examples]) = 3
   \<and> length (filter (spec_correct demo_payload demo_examples (payload_threshold demo_payload))
               [0..<length demo_examples]) = 2
   \<and> length (filter (spec_fallback demo_payload demo_examples (payload_threshold demo_payload))
               [0..<length demo_examples]) = 1
   \<and> compute_scores (normalize_text (ustr ''What is the weather today?'')) demo_payload
       = Inr [Fin 0, Fin 1, Fin 0]
   \<and> spec_query_scores demo_payload demo_examples 1 = Some [Fin 0, NegInf, Fin 0]
   \<and> spec_fallback demo_payload demo_examples (1/4) 1
   \<and> p_examples demo_quarter = Some demo_quarter_examples
   \<and> one_entry_per_example demo_quarter (length demo_quarter_examples)
   \<and> p_bm25_index demo_quarter = None
   \<and> list_all (\<lambda>e. ex_pattern e \<noteq> None \<and> ex_tag e \<noteq> None) demo_quarter_examples
   \<and> evaluate_method (ustr ''boolean'') demo_quarter =
        Inr \<lparr>er_method = ustr ''boolean'', er_total = 3, er_correct = 2, er_fallbacks = 1\<rparr>
   \<and> p_examples demo_single = Some [hd demo_examples]
   \<and> ex_pattern (hd demo_examples) = Some (ustr ''Reset my password'')
   \<and> one_entry_per_example demo_single 1
   \<and> p_bm25_index demo_single = None
   \<and> normalize_text (ustr ''Reset my password'') = ustr ''reset my password''
   \<and> compute_scores (ustr ''reset my password'') demo_single = Inr [Fin 1]
   \<and> evaluate_method (ustr ''boolean'') demo_single =
        Inr \<lparr>er_method = ustr ''boolean'', er_total = 1, er_correct = 0, er_fallbacks = 1\<rparr>
   \<and> normalize_text (ustr ''the'') = []
   \<and> eval_step demo_payload demo_examples (1/4) 0
        \<lparr>ex_tag = Some (ustr ''account''), ex_pattern = Some (ustr ''the''),
         ex_responses = Some [], ex_source_url = None\<rparr> (0, 0, 0) = Inr (0, 0, 0)
   \<and> compute_scores (ustr ''reset my password'') demo_payload = Inr [Fin 1, Fin 0, Fin (2/3)]
   \<and> eval_step demo_payload demo_examples (1/4) 0 (demo_examples ! 0) (0, 0, 0) = Inr (1, 1, 0)
   \<and> argmax_index ([Fin 1, Fin 0, Fin (2/3)][0 := NegInf]) = Inr 2"
proof -
  note T = evaluate_leave_one_out
  from T [where p = demo_payload and exs = demo_examples and meth = "ustr ''boolean''"
      and r = "\<lparr>er_method = ustr ''boolean'', er_total = 3, er_correct = 2, er_fallbacks = 1\<rparr>"]
    demo_fields(1) demo_payload_run
  have counts:
    "length (filter (spec_attempted demo_payload demo_examples) [0..<length demo_examples]) = 3"
    "length (filter (spec_correct demo_payload demo_examples (payload_threshold demo_payload))
               [0..<length demo_examples]) = 2"
    "length (filter (spec_fallback demo_payload demo_examples (payload_threshold demo_payload))
               [0..<length demo_examples]) = 1"
    by simp_all
  have sw: "compute_scores (normalize_text (ustr ''What is the weather today?'')) demo_payload
       = Inr [Fin 0, Fin 1, Fin 0]"
    by (simp add: demo_normalize demo_scores)
  have pat1: "ex_pattern (demo_examples ! 1) = Some (ustr ''What is the weather today?'')"
    by (simp add: demo_examples_def)
  have ne1: "ustr ''weather today'' \<noteq> []" by (simp add: ustr_def)
  have q1: "spec_query_scores demo_payload demo_examples 1 = Some [Fin 0, NegInf, Fin 0]"
    unfolding spec_query_scores_def pat1
    by (simp add: demo_normalize demo_scores ne1)
  have f1: "spec_fallback demo_payload demo_examples (1/4) 1"
    unfolding spec_fallback_def q1 by (simp add: argmax_index_def)
  have al: "one_entry_per_example demo_quarter (length demo_quarter_examples)"
    by (simp add: one_entry_per_example_def payload_method_def demo_quarter_def
        demo_quarter_examples_def ustr_def)
  have bq: "p_bm25_index demo_quarter = None" by (simp add: demo_quarter_def)
  then have wfq: "\<forall>ix. p_bm25_index demo_quarter = Some ix \<longrightarrow> bm25_well_formed ix" by simp
  have la: "list_all (\<lambda>e. ex_pattern e \<noteq> None \<and> ex_tag e \<noteq> None) demo_quarter_examples"
    by (simp add: demo_quarter_examples_def)
  then have ba: "\<forall>e\<in>set demo_quarter_examples. ex_pattern e \<noteq> None \<and> ex_tag e \<noteq> None"
    by (simp add: list_all_iff)
  from T [where p = demo_quarter and exs = demo_quarter_examples and meth = "ustr ''boolean''"]
    demo_quarter_fields(1) al wfq ba
  obtain r where r: "evaluate_method (ustr ''boolean'') demo_quarter = Inr r" by blast
  from T [where p = demo_quarter and exs = demo_quarter_examples and meth = "ustr ''boolean''"
      and r = r] demo_quarter_fields(1) r
  have "er_method r = ustr ''boolean''"
    "er_total r = length (filter (spec_attempted demo_quarter demo_quarter_examples)
                            [0..<length demo_quarter_examples])"
    "er_correct r = length (filter (spec_correct demo_quarter demo_quarter_examples
                            (payload_threshold demo_quarter)) [0..<length demo_quarter_examples])"
    "er_fallbacks r = length (filter (spec_fallback demo_quarter demo_quarter_examples
                            (payload_threshold demo_quarter)) [0..<length demo_quarter_examples])"
    by simp_all
  have wf: "\<forall>ix. p_bm25_index demo_single = Some ix \<longrightarrow> bm25_well_formed ix"
    by (simp add: demo_single_fields)
  have ne: "ustr ''reset my password'' \<noteq> []" by (simp add: ustr_def)
  from T [where p = demo_single and ex = "hd demo_examples" and pat = "ustr ''Reset my password''"
            and meth = "ustr ''boolean''"]
    demo_single_fields(1,4) demo_aligned(2) wf
  have "evaluate_method (ustr ''boolean'') demo_single =
          Inr \<lparr>er_method = ustr ''boolean'',
               er_total = (if normalize_text (ustr ''Reset my password'') = [] then 0 else 1),
               er_correct = 0,
               er_fallbacks = (if normalize_text (ustr ''Reset my password'') = [] then 0 else 1)\<rparr>"
    by blast
  then have single: "evaluate_method (ustr ''boolean'') demo_single =
        Inr \<lparr>er_method = ustr ''boolean'', er_total = 1, er_correct = 0, er_fallbacks = 1\<rparr>"
    unfolding demo_normalize using ne by simp
  have skip: "eval_step demo_payload demo_examples (1/4) 0
        \<lparr>ex_tag = Some (ustr ''account''), ex_pattern = Some (ustr ''the''),
         ex_responses = Some [], ex_source_url = None\<rparr> (0, 0, 0) = Inr (0, 0, 0)"
    using T [where ex = "\<lparr>ex_tag = Some (ustr ''account''), ex_pattern = Some (ustr ''the''),
         ex_responses = Some [], ex_source_url = None\<rparr>" and pat = "ustr ''the''"
         and p = demo_payload and exs = demo_examples and th = "1/4" and i = 0 and st = "(0, 0, 0)"]
      demo_normalize(7)
    by simp
  have am: "argmax_index ([Fin 1, Fin 0, Fin (2/3)][0 := NegInf]) = Inr 2"
    by (simp add: argmax_index_def)
  from demo_fields(1) demo_payload_run counts sw q1 f1 demo_quarter_fields(1) al bq la
    demo_quarter_run single skip am demo_single_fields(1,3,4) demo_aligned(2) demo_normalize(6,7)
    demo_single_scores demo_scores(6) demo_eval_steps(1)
  show ?thesis by blast
qed

end
